theory Spec2Isabelle
  imports Main "HOL-Library.AList" "HOL-Library.Sublist" "HOL-Library.Multiset"
begin

section \<open>Data model of the tournament driver\<close>

text \<open>
  A \<open>Team\<close> holds two user identifiers. The class owns one distinguished object,
  \<open>Team.bye = new Team('', '')\<close>, and the code recognises it by reference
  (\<open>a === Team.bye\<close>), never by its contents. The constructor \<open>Bye\<close> is that one
  object; \<open>Team a b\<close> is any object built by \<open>new Team(a, b)\<close>, so
  \<open>Team [] []\<close> and \<open>Bye\<close> differ although both carry two empty names.
\<close>

datatype team = Bye | Team string string

fun users :: "team \<Rightarrow> string list" where
  "users Bye = [[], []]"
| "users (Team a b) = [a, b]"

text \<open>
  A \<open>Game\<close> object. The games refer to one another (\<open>previous_games\<close>,
  \<open>next_game\<close>) and are mutated through these references, so the model keeps
  every game in a store and writes a reference as the key of the game in that store.
  The key is the game's \<open>id\<close>: the driver gives every game it creates a fresh id and
  files it under that id in its own \<open>games\<close> map, which therefore is the store.
  The field \<open>id\<close> is called \<open>game_id\<close> here.
\<close>

record game =
  game_id :: nat
  teams :: "team list"
  round :: nat
  started :: bool
  finished :: bool
  col :: int
  row :: int
  previous_games :: "nat list"
  next_game :: "nat option"

text \<open>\<open>new Game(id, round)\<close> with the initial values of the class fields.\<close>

definition new_Game :: "nat \<Rightarrow> nat \<Rightarrow> game" where
  "new_Game i r =
     \<lparr> game_id = i, teams = [], round = r, started = False, finished = False,
       col = - 1, row = - 1, previous_games = [], next_game = None \<rparr>"

text \<open>What \<open>assert\<close>, a property read on \<open>undefined\<close>, and \<open>expected\<close> raise.
  \<open>UndefinedValue\<close> stands for a read of \<open>teams[k]\<close> outside the array: the source
  would push \<open>undefined\<close> into the game and fail later; the model stops there.\<close>

datatype error = AssertionError | TypeError | UndefinedValue | ExpectedError

text \<open>The pair \<open>[games, rounds]\<close> that \<open>createBracket\<close> builds: the store of games
  by id and, per round, the references to its games in order.\<close>

record bracket =
  games :: "nat \<rightharpoonup> game"
  rounds :: "nat list list"

text \<open>Reading a JavaScript array: \<open>undefined\<close> (here \<open>None\<close>) outside its range.\<close>

definition nth_js :: "'a list \<Rightarrow> nat \<Rightarrow> 'a option" where
  "nth_js xs i = (if i < length xs then Some (xs ! i) else None)"

definition nth_js_int :: "'a list \<Rightarrow> int \<Rightarrow> 'a option" where
  "nth_js_int xs i = (if 0 \<le> i then nth_js xs (nat i) else None)"

text \<open>A mutation of the game behind a reference.\<close>

definition upd_game :: "(nat \<rightharpoonup> game) \<Rightarrow> nat \<Rightarrow> (game \<Rightarrow> game) \<Rightarrow> (nat \<rightharpoonup> game)" where
  "upd_game gs k f = (\<lambda>j. if j = k then map_option f (gs j) else gs j)"

text \<open>A counted loop \<open>for (i of is) s = body(i, s)\<close> that stops at the first error.\<close>

fun for_loop :: "nat list \<Rightarrow> (nat \<Rightarrow> 's \<Rightarrow> error + 's) \<Rightarrow> 's \<Rightarrow> error + 's" where
  "for_loop [] body s = Inr s"
| "for_loop (i # js) body s =
     (case body i s of Inl e \<Rightarrow> Inl e | Inr s' \<Rightarrow> for_loop js body s')"

section \<open>createBracket\<close>

text \<open>\<open>let game_count = 2; while (team_count > 2 * game_count) game_count *= 2\<close>.
  As a function of both variables the loop need not end (\<open>game_count = 0\<close>), so it
  is a partial function; \<open>None\<close> is the loop that never ends.\<close>

partial_function (option) game_count_loop :: "nat \<Rightarrow> nat \<Rightarrow> nat option" where
  "game_count_loop team_count game_count =
     (if team_count > 2 * game_count then game_count_loop team_count (game_count * 2)
      else Some game_count)"

declare game_count_loop.simps [code]

text \<open>\<open>Math.floor(Math.log2(n))\<close> on the whole numbers \<open>n \<ge> 1\<close>; the driver applies
  it to \<open>game_count\<close> only.\<close>

fun floor_log2 :: "nat \<Rightarrow> nat" where
  "floor_log2 n = (if n < 2 then 0 else Suc (floor_log2 (n div 2)))"

declare floor_log2.simps [simp del]

text \<open>\<open>rounds[r].push(game)\<close>: a \<open>TypeError\<close> when \<open>rounds[r]\<close> is \<open>undefined\<close>.\<close>

definition push_round :: "bracket \<Rightarrow> nat \<Rightarrow> nat \<Rightarrow> error + bracket" where
  "push_round b r k =
     (if r < length (rounds b)
      then Inr (b\<lparr>rounds := (rounds b)[r := rounds b ! r @ [k]]\<rparr>)
      else Inl TypeError)"

text \<open>The body of the loop that creates the games of round 1:
  \<open>const game = new Game(i + 1, 1); rounds[0].push(game); games.set(game.id, game)\<close>.\<close>

definition create_round1 :: "nat \<Rightarrow> bracket \<Rightarrow> error + bracket" where
  "create_round1 i b =
     (case push_round b 0 (i + 1) of
        Inl e \<Rightarrow> Inl e
      | Inr b' \<Rightarrow> Inr (b'\<lparr>games := (games b')(i + 1 \<mapsto> new_Game (i + 1) 1)\<rparr>))"

text \<open>The local function \<open>populate_game(index, round, byes, top, bottom)\<close>. It
  returns \<open>[byes, top, bottom]\<close>; the model returns the mutated bracket with them.\<close>

definition populate_game ::
  "team list \<Rightarrow> bracket \<Rightarrow> nat \<Rightarrow> nat \<Rightarrow> int \<Rightarrow> nat \<Rightarrow> int \<Rightarrow> error + (bracket \<times> int \<times> nat \<times> int)"
where
  "populate_game tms b index rnd byes top_idx bottom =
     (case nth_js (rounds b) rnd of
        None \<Rightarrow> Inl TypeError
      | Some gs \<Rightarrow>
     (case nth_js gs index of
        None \<Rightarrow> Inl AssertionError
      | Some g \<Rightarrow>
     (case nth_js tms top_idx of
        None \<Rightarrow> Inl UndefinedValue
      | Some t \<Rightarrow>
          let games1 = upd_game (games b) g (\<lambda>x. x\<lparr>teams := teams x @ [t]\<rparr>);
              top' = top_idx + 1
          in if byes > 0 then
               let games2 = upd_game games1 g (\<lambda>x. x\<lparr>teams := teams x @ [Bye]\<rparr>);
                   byes' = byes - 1;
                   games3 = upd_game games2 g (\<lambda>x. x\<lparr>started := True\<rparr>);
                   games4 = upd_game games3 g (\<lambda>x. x\<lparr>finished := True\<rparr>);
                   games5 = upd_game games4 g (\<lambda>x. x\<lparr>row := int index * 2\<rparr>)
               in Inr (b\<lparr>games := games5\<rparr>, byes', top', bottom)
             else
               (case nth_js_int tms bottom of
                  None \<Rightarrow> Inl UndefinedValue
                | Some t' \<Rightarrow>
                    let games2 = upd_game games1 g (\<lambda>x. x\<lparr>teams := teams x @ [t']\<rparr>);
                        bottom' = bottom - 1;
                        games5 = upd_game games2 g (\<lambda>x. x\<lparr>row := int index * 2\<rparr>)
                    in Inr (b\<lparr>games := games5\<rparr>, byes, top', bottom')))))"

text \<open>The body of the loop over \<open>i < game_count / 2\<close> that fills round 1 from both
  ends of the bracket.\<close>

definition populate_pair ::
  "team list \<Rightarrow> nat \<Rightarrow> nat \<Rightarrow> bracket \<times> int \<times> nat \<times> int \<Rightarrow> error + (bracket \<times> int \<times> nat \<times> int)"
where
  "populate_pair tms game_count i s =
     (case s of (b, byes, top_team, bot_team) \<Rightarrow>
        let top_bracket = i in
        (case populate_game tms b top_bracket 0 byes top_team bot_team of
           Inl e \<Rightarrow> Inl e
         | Inr (b', byes', top_team', bot_team') \<Rightarrow>
             let bot_bracket = game_count - (1 + i)
             in populate_game tms b' bot_bracket 0 byes' top_team' bot_team'))"

text \<open>The body of the inner loop of the later rounds, for the game at index \<open>i\<close> of
  round \<open>rnd\<close>; \<open>game_id\<close> is the id it receives.\<close>

definition create_game ::
  "nat \<Rightarrow> nat \<Rightarrow> int \<Rightarrow> int \<Rightarrow> nat \<Rightarrow> nat \<Rightarrow> bracket \<times> nat \<Rightarrow> error + (bracket \<times> nat)"
where
  "create_game game_count rnd cl rw round_games i s =
     (case s of (b, gid) \<Rightarrow>
       (case push_round b (rnd - 1) gid of
          Inl e \<Rightarrow> Inl e
        | Inr b1 \<Rightarrow>
            let games1 = (games b1)(gid \<mapsto> new_Game gid rnd) in
            (case nth_js (rounds b1) (rnd - 2) of
               None \<Rightarrow> Inl TypeError
             | Some prev \<Rightarrow>
            (case (nth_js prev (i * 2), nth_js prev (i * 2 + 1)) of
               (Some previous1, Some previous2) \<Rightarrow>
                 let games2 = upd_game games1 gid
                                (\<lambda>x. x\<lparr>previous_games := previous_games x @ [previous1]\<rparr>);
                     games3 = upd_game games2 gid
                                (\<lambda>x. x\<lparr>previous_games := previous_games x @ [previous2]\<rparr>);
                     games4 = upd_game games3 previous1 (\<lambda>x. x\<lparr>next_game := Some gid\<rparr>);
                     games5 = upd_game games4 previous2 (\<lambda>x. x\<lparr>next_game := Some gid\<rparr>);
                     games6 = upd_game games5 gid (\<lambda>x. x\<lparr>col := cl\<rparr>);
                     games7 = upd_game games6 gid
                                (\<lambda>x. x\<lparr>row := rw + int ((game_count div round_games) * i * 2)\<rparr>)
                 in Inr (b1\<lparr>games := games7\<rparr>, gid + 1)
             | _ \<Rightarrow> Inl TypeError))))"

text \<open>The body of the outer loop over \<open>round = 2 .. round_count\<close>. Its state is the
  bracket with \<open>round_games\<close>, \<open>row\<close> and \<open>game_id\<close>. \<open>round_games\<close> is a whole
  number in every round the loop runs (it is \<open>game_count\<close> halved \<open>round - 1\<close> times,
  and \<open>game_count\<close> is \<open>2 ^ (round_count - 1)\<close>), so the divisions are exact.\<close>

definition create_round ::
  "nat \<Rightarrow> nat \<Rightarrow> bracket \<times> nat \<times> int \<times> nat \<Rightarrow> error + (bracket \<times> nat \<times> int \<times> nat)"
where
  "create_round game_count rnd s =
     (case s of (b, round_games, rw, gid) \<Rightarrow>
        let cl = 2 * (int rnd - 1) in
        (case for_loop [0..<round_games] (create_game game_count rnd cl rw round_games) (b, gid) of
           Inl e \<Rightarrow> Inl e
         | Inr (b', gid') \<Rightarrow> Inr (b', round_games div 2, rw + 2 ^ (rnd - 1), gid')))"

text \<open>The two numbers \<open>createBracket\<close> computes from \<open>game_count\<close>:
  \<open>let byes = (game_count * 2) - team_count\<close> and
  \<open>const round_count = Math.floor(Math.log2(game_count)) + 1\<close>.\<close>

definition initial_byes :: "nat \<Rightarrow> nat \<Rightarrow> int" where
  "initial_byes game_count team_count = int (game_count * 2) - int team_count"

definition round_count_of :: "nat \<Rightarrow> nat" where
  "round_count_of game_count = floor_log2 game_count + 1"

definition createBracket :: "team list \<Rightarrow> (error + bracket) option" where
  "createBracket tms =
     (let team_count = length tms in
      if team_count < 4 then Some (Inr \<lparr>games = Map.empty, rounds = []\<rparr>)
      else
        (case game_count_loop team_count 2 of
           None \<Rightarrow> None
         | Some game_count \<Rightarrow>
             Some
              (let byes = initial_byes game_count team_count;
                   round_count = round_count_of game_count;
                   b0 = \<lparr>games = Map.empty, rounds = replicate round_count []\<rparr>
               in case for_loop [0..<game_count] create_round1 b0 of
                    Inl e \<Rightarrow> Inl e
                  | Inr b1 \<Rightarrow>
               (case for_loop [0..<game_count div 2] (populate_pair tms game_count)
                       (b1, byes, 0, int (length tms) - 1) of
                    Inl e \<Rightarrow> Inl e
                  | Inr (b2, byes', top_team, bot_team) \<Rightarrow>
               (case for_loop [2..<round_count + 1] (create_round game_count)
                       (b2, game_count div 2, 1, game_count + 1) of
                    Inl e \<Rightarrow> Inl e
                  | Inr (b3, round_games, rw, gid) \<Rightarrow> Inr b3)))))"

text \<open>\<open>get canceled() { return this.rounds.length === 0 }\<close>.\<close>

definition canceled :: "bracket \<Rightarrow> bool" where
  "canceled b = (length (rounds b) = 0)"

text \<open>The bracket a driver holds for a team list; the empty bracket where
  \<open>createBracket\<close> gives none.\<close>

definition built_bracket :: "team list \<Rightarrow> bracket" where
  "built_bracket tms =
     (case createBracket tms of Some (Inr b) \<Rightarrow> b | _ \<Rightarrow> \<lparr>games = Map.empty, rounds = []\<rparr>)"

section \<open>Game.start\<close>

text \<open>
  The driver at run time: the bracket, every \<open>GameRoom\<close> constructed so far and every
  event emitted so far. A room holds the table it was constructed with (the four
  user ids in seat order); \<open>room_game\<close> records which game's \<open>start\<close> constructed
  it, which is the \<open>this\<close> that the room's \<open>gameOver\<close> handler closes over. The
  handler is registered with \<open>room.once\<close>, so it runs for the first \<open>gameOver\<close> of
  a room only: \<open>over_done\<close> lists the rooms (by their position in \<open>rooms\<close>) whose
  handler has run.
\<close>

record room =
  room_game :: nat
  table :: "string list"

datatype event =
    AnnounceBye nat string
  | SummonTable nat room
  | TournamentOver team room

record driver = bracket +
  rooms :: "room list"
  emitted :: "event list"
  over_done :: "nat list"

text \<open>The getter \<open>bye\<close>: with \<open>const [a, b] = this.teams\<close>, the other team when
  one of the first two is \<open>Team.bye\<close>, otherwise \<open>undefined\<close>. With fewer than
  two teams \<open>b\<close> is \<open>undefined\<close>, so the result is \<open>undefined\<close> as well.\<close>

definition bye :: "game \<Rightarrow> team option" where
  "bye g =
     (case teams g of
        a # b # rest \<Rightarrow> if a = Bye then Some b else if b = Bye then Some a else None
      | _ \<Rightarrow> None)"

text \<open>
  \<open>start(driver)\<close> on the game behind reference \<open>gid\<close>. The identity lookups
  \<open>user(id)\<close> belong to another module; they are taken to succeed and to return the
  id they were asked for, so the table \<open>seat_table\<close> (the argument of
  \<open>new TableBuilder\<close>, read only when two teams are present) holds the four ids. \<open>isBot\<close> is
  \<open>GameRoom.isBot\<close>, also of another module. The call on the next game is a nested
  call: the first argument bounds the depth of nesting, and \<open>None\<close> says the bound
  was reached. \<open>expected(x)\<close> raises when \<open>x\<close> is \<open>undefined\<close>.
\<close>

definition seat_table :: "team list \<Rightarrow> string list" where
  "seat_table tms =
     [users (tms ! 0) ! 0, users (tms ! 1) ! 0, users (tms ! 0) ! 1, users (tms ! 1) ! 1]"

fun start :: "(string \<Rightarrow> bool) \<Rightarrow> nat \<Rightarrow> driver \<Rightarrow> nat \<Rightarrow> (error + driver) option" where
  "start isBot 0 d gid = None"
| "start isBot (Suc fuel) d gid =
     (case games d gid of
        None \<Rightarrow> Some (Inl TypeError)
      | Some this \<Rightarrow>
     (case bye this of
        Some t \<Rightarrow>
          let d1 = d\<lparr>emitted := emitted d @
                       map (AnnounceBye (round this)) (filter (\<lambda>u. \<not> isBot u) (users t))\<rparr>
          in (case next_game this of
                None \<Rightarrow> Some (Inl ExpectedError)
              | Some nxt \<Rightarrow>
                  start isBot fuel
                    (d1\<lparr>games := upd_game (games d1) nxt (\<lambda>x. x\<lparr>teams := teams x @ [t]\<rparr>)\<rparr>) nxt)
      | None \<Rightarrow>
          if length (teams this) < 2 then Some (Inr d)
          else
            let rm = \<lparr>room_game = gid, table = seat_table (teams this)\<rparr>
            in Some (Inr (d\<lparr>rooms := rooms d @ [rm],
                              emitted := emitted d @ [SummonTable (round this) rm]\<rparr>))))"

text \<open>A \<open>gameOver\<close> event of the room at position \<open>i\<close>, with
  \<open>save.winnerIndices = [a, b]\<close>. Nothing listens once the handler has run, or
  where there is no such room.\<close>

definition game_over ::
  "(string \<Rightarrow> bool) \<Rightarrow> nat \<Rightarrow> driver \<Rightarrow> nat \<Rightarrow> nat \<times> nat \<Rightarrow> (error + driver) option"
where
  "game_over isBot fuel d i winnerIndices =
     (if i \<in> set (over_done d) then Some (Inr d)
      else
     (case nth_js (rooms d) i of
        None \<Rightarrow> Some (Inr d)
      | Some rm \<Rightarrow>
     (case winnerIndices of (a, b) \<Rightarrow>
     (case (nth_js (table rm) a, nth_js (table rm) b) of
        (Some ua, Some ub) \<Rightarrow>
          let winners = Team ua ub;
              d1 = d\<lparr>over_done := i # over_done d\<rparr>
          in
          (case games d1 (room_game rm) of
             None \<Rightarrow> Some (Inl TypeError)
           | Some this \<Rightarrow>
          (case next_game this of
             None \<Rightarrow> Some (Inr (d1\<lparr>emitted := emitted d1 @ [TournamentOver winners rm]\<rparr>))
           | Some nxt \<Rightarrow>
               start isBot fuel
                 (d1\<lparr>games := upd_game (games d1) nxt (\<lambda>x. x\<lparr>teams := teams x @ [winners]\<rparr>)\<rparr>) nxt))
      | _ \<Rightarrow> Some (Inl ExpectedError)))))"

section \<open>pickTeams\<close>

text \<open>
  A JavaScript \<open>Map\<close> is its list of entries in insertion order, with one entry per
  key; a \<open>Set\<close> is its list of members in insertion order, without repetition.
\<close>

definition map_set :: "('k \<times> 'v) list \<Rightarrow> 'k \<Rightarrow> 'v \<Rightarrow> ('k \<times> 'v) list" where
  "map_set m k v = AList.update k v m"

definition new_Map :: "('k \<times> 'v) list \<Rightarrow> ('k \<times> 'v) list" where
  "new_Map entries = foldl (\<lambda>m (k, v). map_set m k v) [] entries"

definition set_add :: "'a list \<Rightarrow> 'a \<Rightarrow> 'a list" where
  "set_add s x = (if x \<in> set s then s else s @ [x])"

definition set_delete :: "'a list \<Rightarrow> 'a \<Rightarrow> 'a list" where
  "set_delete s x = removeAll x s"

definition new_Set :: "'a list \<Rightarrow> 'a list" where
  "new_Set xs = foldl set_add [] xs"

text \<open>\<open>let max = 8; while (count > max) max *= 2\<close>, with \<open>cnt\<close> for \<open>count\<close> and
  \<open>mx\<close> for \<open>max\<close>.\<close>

partial_function (option) max_loop :: "nat \<Rightarrow> nat \<Rightarrow> nat option" where
  "max_loop cnt mx = (if cnt > mx then max_loop cnt (mx * 2) else Some mx)"

declare max_loop.simps [code]

text \<open>The loop over \<open>signups.entries()\<close> that honours mutual partner choices. Its
  state is the reject pile and the teams; \<open>!partner\<close> holds for \<open>null\<close> and for
  the empty string.\<close>

fun match_partners ::
  "(string \<times> string option) list \<Rightarrow> (string \<times> string option) list \<Rightarrow>
   string list \<times> team list \<Rightarrow> string list \<times> team list"
where
  "match_partners signups [] (rejects, tms) = (rejects, tms)"
| "match_partners signups ((user, partner) # rest) (rejects, tms) =
     (if user \<notin> set rejects then match_partners signups rest (rejects, tms)
      else
        (case partner of
           None \<Rightarrow> match_partners signups rest (rejects, tms)
         | Some p \<Rightarrow>
             if p = [] then match_partners signups rest (rejects, tms)
             else if p \<notin> set rejects then match_partners signups rest (rejects, tms)
             else if map_of signups p \<noteq> Some (Some user)
               then match_partners signups rest (rejects, tms)
             else match_partners signups rest
                    (set_delete (set_delete rejects user) p, tms @ [Team user p])))"

text \<open>\<open>_.sample(array)\<close>: an element at a random index, \<open>undefined\<close> for the empty
  array. The random number is a parameter.\<close>

definition sample :: "nat \<Rightarrow> 'a list \<Rightarrow> 'a option" where
  "sample rnd xs = (if xs = [] then None else Some (xs ! (rnd mod length xs)))"

text \<open>\<open>array.pop()\<close>: the last element and the array without it.\<close>

definition pop :: "'a list \<Rightarrow> 'a option \<times> 'a list" where
  "pop xs = (if xs = [] then (None, []) else (Some (last xs), butlast xs))"

text \<open>\<open>assert(x)\<close> on a string that may be \<open>undefined\<close>: it passes on a non-empty
  string only.\<close>

definition truthy :: "string option \<Rightarrow> bool" where
  "truthy x = (case x of None \<Rightarrow> False | Some s \<Rightarrow> s \<noteq> [])"

text \<open>\<open>while (left.length > 0) { const [a, b] = [left.pop(), left.pop()];
  assert(a); assert(b); teams.push(new Team(a, b)) }\<close>.\<close>

function pair_loop :: "string list \<Rightarrow> team list \<Rightarrow> error + team list" where
  "pair_loop left tms =
     (if length left > 0 then
        (case pop left of (a, left1) \<Rightarrow>
        (case pop left1 of (b, left2) \<Rightarrow>
           if \<not> truthy a then Inl AssertionError
           else if \<not> truthy b then Inl AssertionError
           else pair_loop left2 (tms @ [Team (the a) (the b)])))
      else Inr tms)"
  by pat_completeness auto
termination
  by (relation "measure (\<lambda>(left, tms). length left)") (auto simp: pop_def split: if_splits)

declare pair_loop.simps [simp del]

text \<open>
  \<open>pickTeams()\<close>. The tournament gives \<open>host\<close> and \<open>choosePartner\<close>;
  \<open>shuffled\<close> is the array \<open>_.shuffle(Array.from(this.t.signups().entries()))\<close>,
  \<open>nextBotName i\<close> the name that the call number \<open>i\<close> of \<open>nextBotName()\<close> returns,
  and \<open>rnd\<close> the random number behind \<open>_.sample\<close>.
\<close>

definition pickTeams ::
  "string \<Rightarrow> bool \<Rightarrow> (string \<times> string option) list \<Rightarrow> (nat \<Rightarrow> string) \<Rightarrow> nat \<Rightarrow>
   (error + team list \<times> string option) option"
where
  "pickTeams host choosePartner shuffled nextBotName rnd =
     (let signups = new_Map shuffled;
          rejects0 = new_Set (map fst signups)
      in case (if host = ''bots'' then
                 (let cnt = length rejects0 in
                  case max_loop cnt 8 of
                    None \<Rightarrow> None
                  | Some mx \<Rightarrow>
                      Some (fold (\<lambda>i r. set_add r ('':bot:'' @ nextBotName i)) [0..<mx - cnt] rejects0))
               else Some rejects0) of
           None \<Rightarrow> None
         | Some rejects1 \<Rightarrow>
             Some
              (case (if choosePartner then match_partners signups signups (rejects1, [])
                     else (rejects1, [])) of
                 (rejects2, teams1) \<Rightarrow>
              (case (if length rejects2 mod 2 \<noteq> 0 then
                       (let dropped = sample rnd rejects2 in
                        if \<not> truthy dropped then Inl AssertionError
                        else Inr (dropped, set_delete rejects2 (the dropped)))
                     else Inr (None, rejects2)) of
                 Inl e \<Rightarrow> Inl e
               | Inr (dropped, rejects3) \<Rightarrow>
                   if length rejects3 mod 2 \<noteq> 0 then Inl AssertionError
                   else
                     (case pair_loop rejects3 teams1 of
                        Inl e \<Rightarrow> Inl e
                      | Inr tms \<Rightarrow> Inr (tms, dropped)))))"

section \<open>The constructor of TournamentDriver\<close>

text \<open>The driver that holds a bracket, with no room constructed and no event emitted.\<close>

definition new_driver :: "bracket \<Rightarrow> driver" where
  "new_driver b =
     \<lparr>games = games b, rounds = rounds b, rooms = [], emitted = [], over_done = []\<rparr>"

text \<open>\<open>[this.teams, this.dropped] = this.pickTeams();
  [this.games, this.rounds] = this.createBracket()\<close>.
  The result carries \<open>teams\<close> and \<open>dropped\<close> beside the driver's bracket.\<close>

definition TournamentDriver ::
  "string \<Rightarrow> bool \<Rightarrow> (string \<times> string option) list \<Rightarrow> (nat \<Rightarrow> string) \<Rightarrow> nat \<Rightarrow>
   (error + team list \<times> string option \<times> driver) option"
where
  "TournamentDriver host choosePartner shuffled nextBotName rnd =
     (case pickTeams host choosePartner shuffled nextBotName rnd of
        None \<Rightarrow> None
      | Some (Inl e) \<Rightarrow> Some (Inl e)
      | Some (Inr (tms, dropped)) \<Rightarrow>
     (case createBracket tms of
        None \<Rightarrow> None
      | Some (Inl e) \<Rightarrow> Some (Inl e)
      | Some (Inr b) \<Rightarrow> Some (Inr (tms, dropped, new_driver b))))"

section \<open>The tournament while it runs\<close>

text \<open>
  After construction the driver changes through calls of \<open>start\<close> and through the
  \<open>gameOver\<close> handlers of the rooms it has constructed. \<open>reachable isBot d0 d\<close>: the
  driver \<open>d\<close> is reached from \<open>d0\<close> by such calls that returned (in any order, on any
  game, with any winning seats).
\<close>

inductive reachable :: "(string \<Rightarrow> bool) \<Rightarrow> driver \<Rightarrow> driver \<Rightarrow> bool"
  for isBot :: "string \<Rightarrow> bool" and d0 :: driver
where
  initial: "reachable isBot d0 d0"
| started: "reachable isBot d0 d \<Longrightarrow> start isBot fuel d gid = Some (Inr d') \<Longrightarrow>
            reachable isBot d0 d'"
| over: "reachable isBot d0 d \<Longrightarrow>
         game_over isBot fuel d i (a, b) = Some (Inr d') \<Longrightarrow> reachable isBot d0 d'"

text \<open>
  \<open>run()\<close>: \<open>await Promise.all(this.rounds[0].map((game) => game.start(this)))\<close>, the
  call of \<open>start\<close> on every game of the first round, in the order of the round. With no
  round at all \<open>this.rounds[0]\<close> is \<open>undefined\<close> and the call of \<open>map\<close> raises. A call of
  \<open>start\<close> is taken to run to its end before the next one begins: the test on the teams
  of a game and the push that precedes it run without interruption in the code as well,
  and only the construction of the room waits for the lookups of the four users.
  \<open>running isBot d0 d\<close>: the driver \<open>d\<close> is reached from \<open>d0\<close> by \<open>run()\<close> and then by
  \<open>gameOver\<close> handlers of its rooms, each handler at most once (\<open>room.once\<close>), in any
  order and with any winning seats.
\<close>

fun start_each :: "(string \<Rightarrow> bool) \<Rightarrow> nat \<Rightarrow> nat list \<Rightarrow> driver \<Rightarrow> (error + driver) option" where
  "start_each isBot fuel [] d = Some (Inr d)"
| "start_each isBot fuel (gid # rest) d =
     (case start isBot fuel d gid of
        None \<Rightarrow> None
      | Some (Inl e) \<Rightarrow> Some (Inl e)
      | Some (Inr d') \<Rightarrow> start_each isBot fuel rest d')"

definition run :: "(string \<Rightarrow> bool) \<Rightarrow> nat \<Rightarrow> driver \<Rightarrow> (error + driver) option" where
  "run isBot fuel d =
     (case nth_js (rounds d) 0 of
        None \<Rightarrow> Some (Inl TypeError)
      | Some first_round \<Rightarrow> start_each isBot fuel first_round d)"

inductive running :: "(string \<Rightarrow> bool) \<Rightarrow> driver \<Rightarrow> driver \<Rightarrow> bool"
  for isBot :: "string \<Rightarrow> bool" and d0 :: driver
where
  begun: "run isBot fuel d0 = Some (Inr d) \<Longrightarrow> running isBot d0 d"
| handled: "running isBot d0 d \<Longrightarrow>
            game_over isBot fuel d i (a, b) = Some (Inr d') \<Longrightarrow> running isBot d0 d'"

text \<open>What the calls keep: every \<open>next_game\<close> leads to a game of a later round than
  the first; the games of round 1 stay as built and no game changes its round; every
  room was constructed for a game with two teams and no bye; and a \<open>Bye\<close> stands at
  most in the second seat of a first-round game.\<close>

definition links_ok :: "driver \<Rightarrow> bool" where
  "links_ok d \<longleftrightarrow>
     (\<forall>j g nx. games d j = Some g \<longrightarrow> next_game g = Some nx \<longrightarrow>
        (\<exists>g'. games d nx = Some g' \<and> 2 \<le> round g'))"

definition round1_kept :: "driver \<Rightarrow> driver \<Rightarrow> bool" where
  "round1_kept d0 d \<longleftrightarrow>
     (\<forall>j g0. games d0 j = Some g0 \<longrightarrow>
        (\<exists>g. games d j = Some g \<and> round g = round g0 \<and> (round g0 < 2 \<longrightarrow> g = g0)))"

definition rooms_ok :: "driver \<Rightarrow> bool" where
  "rooms_ok d \<longleftrightarrow>
     (\<forall>r\<in>set (rooms d). \<exists>g. games d (room_game r) = Some g \<and> 2 \<le> length (teams g) \<and> bye g = None)"

definition run_inv :: "driver \<Rightarrow> driver \<Rightarrow> bool" where
  "run_inv d0 d \<longleftrightarrow> links_ok d \<and> round1_kept d0 d \<and> rooms_ok d"

definition bye_second_only :: "driver \<Rightarrow> bool" where
  "bye_second_only d \<longleftrightarrow>
     (\<forall>j g. games d j = Some g \<longrightarrow>
        (round g < 2 \<longrightarrow> (\<exists>t x. teams g = [t, x] \<and> t \<noteq> Bye)) \<and>
        (2 \<le> round g \<longrightarrow> Bye \<notin> set (teams g)))"

text \<open>Examples for the theorems below. \<open>GameRoom.isBot\<close> is not among the sources, and
  every theorem on \<open>start\<close> holds for any predicate \<open>isBot\<close>. For the examples
  \<open>is_bot_id\<close> recognises the ids that \<open>pickTeams\<close> gives to the bots, which begin with
  \<open>:bot:\<close>. \<open>start_twice\<close> invokes \<open>start\<close> on a game and, when that returned, once
  more on the same game; \<open>room_games\<close> lists the games of the rooms constructed so far.\<close>

definition is_bot_id :: "string \<Rightarrow> bool" where
  "is_bot_id u = (take 5 u = '':bot:'')"

definition four_teams :: "team list" where
  "four_teams = [Team ''a'' ''b'', Team ''c'' ''d'', Team ''e'' ''f'', Team ''g'' ''h'']"

definition four_team_driver :: driver where
  "four_team_driver = new_driver (built_bracket four_teams)"

definition first_room :: room where
  "first_room = \<lparr>room_game = 1, table = [''a'', ''g'', ''b'', ''h'']\<rparr>"

definition start_twice :: "(string \<Rightarrow> bool) \<Rightarrow> nat \<Rightarrow> driver \<Rightarrow> nat \<Rightarrow> (error + driver) option" where
  "start_twice isBot fuel d gid =
     (case start isBot fuel d gid of
        Some (Inr d') \<Rightarrow> start isBot fuel d' gid
      | r \<Rightarrow> r)"

definition room_games :: "(error + driver) option \<Rightarrow> nat list" where
  "room_games r = (case r of Some (Inr d) \<Rightarrow> map room_game (rooms d) | _ \<Rightarrow> [])"

section \<open>Descriptions of the bracket used in the proofs\<close>

text \<open>
  The loop fills position \<open>0\<close>, then \<open>game_count - 1\<close>, then \<open>1\<close>, then
  \<open>game_count - 2\<close>, and so on. \<open>fill_order game_count p\<close> is the number of games
  filled before the game at position \<open>p\<close>, \<open>fill_pos game_count v\<close> the position
  filled by call number \<open>v\<close> of \<open>populate_game\<close>, and \<open>seated\<close> the two teams the
  game at position \<open>p\<close> holds afterwards. The other definitions describe the bracket
  between two steps of the three loops; \<open>base_id k q\<close> is the number of games in the
  rounds before round \<open>q + 1\<close> of a bracket with \<open>2 ^ k\<close> first-round games.
\<close>

definition fill_order :: "nat \<Rightarrow> nat \<Rightarrow> nat" where
  "fill_order game_count p =
     (if p < game_count div 2 then 2 * p else 2 * (game_count - 1 - p) + 1)"

definition seated :: "team list \<Rightarrow> nat \<Rightarrow> nat \<Rightarrow> team list" where
  "seated tms game_count p =
     (let v = fill_order game_count p; byes = 2 * game_count - length tms
      in [tms ! v, if v < byes then Bye else tms ! (length tms - 1 - (v - byes))])"

definition filled_game :: "team list \<Rightarrow> nat \<Rightarrow> nat \<Rightarrow> game" where
  "filled_game tms game_count p =
     \<lparr> game_id = p + 1, teams = seated tms game_count p, round = 1,
       started = (fill_order game_count p < 2 * game_count - length tms),
       finished = (fill_order game_count p < 2 * game_count - length tms),
       col = - 1, row = int p * 2, previous_games = [], next_game = None \<rparr>"

definition round1_rounds :: "nat \<Rightarrow> nat \<Rightarrow> nat list list" where
  "round1_rounds k n = [1..<n + 1] # replicate k []"

definition created_state :: "nat \<Rightarrow> nat \<Rightarrow> bracket" where
  "created_state k n =
     \<lparr> games = (\<lambda>j. if 1 \<le> j \<and> j \<le> n then Some (new_Game j 1) else None),
       rounds = round1_rounds k n \<rparr>"

definition fill_pos :: "nat \<Rightarrow> nat \<Rightarrow> nat" where
  "fill_pos game_count v = (if even v then v div 2 else game_count - 1 - v div 2)"

definition filled_state :: "team list \<Rightarrow> nat \<Rightarrow> nat \<Rightarrow> nat \<Rightarrow> bracket" where
  "filled_state tms k gc v =
     \<lparr> games = (\<lambda>j. if 1 \<le> j \<and> j \<le> gc
                     then Some (if fill_order gc (j - 1) < v
                                then filled_game tms gc (j - 1) else new_Game j 1)
                     else None),
       rounds = round1_rounds k gc \<rparr>"

definition fill_vars :: "team list \<Rightarrow> nat \<Rightarrow> nat \<Rightarrow> nat \<Rightarrow> bracket \<times> int \<times> nat \<times> int" where
  "fill_vars tms k gc v =
     (filled_state tms k gc v,
      max 0 (int (gc * 2) - int (length tms) - int v),
      v,
      int (length tms) - 1 - max 0 (int v - (int (gc * 2) - int (length tms))))"

fun base_id :: "nat \<Rightarrow> nat \<Rightarrow> nat" where
  "base_id k 0 = 0"
| "base_id k (Suc q) = base_id k q + 2 ^ (k - q)"

definition later_rounds :: "nat \<Rightarrow> nat \<Rightarrow> nat list list" where
  "later_rounds k m =
     map (\<lambda>q. [base_id k q + 1 ..< Suc (min (base_id k (Suc q)) m)]) [0..<k + 1]"

definition later_game :: "team list \<Rightarrow> nat \<Rightarrow> nat \<Rightarrow> nat \<Rightarrow> nat \<Rightarrow> game" where
  "later_game tms k m q i =
     \<lparr> game_id = base_id k q + 1 + i,
       teams = (if q = 0 then seated tms (2 ^ k) i else []),
       round = q + 1,
       started = (q = 0 \<and> fill_order (2 ^ k) i < 2 * 2 ^ k - length tms),
       finished = (q = 0 \<and> fill_order (2 ^ k) i < 2 * 2 ^ k - length tms),
       col = (if q = 0 then - 1 else 2 * int q),
       row = (if q = 0 then int i * 2 else 2 ^ q - 1 + int (2 ^ q * i * 2)),
       previous_games =
         (if q = 0 then [] else [base_id k (q - 1) + 1 + 2 * i, base_id k (q - 1) + 1 + (2 * i + 1)]),
       next_game =
         (if q < k \<and> base_id k (Suc q) + 1 + i div 2 \<le> m
          then Some (base_id k (Suc q) + 1 + i div 2) else None) \<rparr>"

definition built :: "team list \<Rightarrow> nat \<Rightarrow> nat \<Rightarrow> bracket \<Rightarrow> bool" where
  "built tms k m b \<longleftrightarrow>
     rounds b = later_rounds k m \<and>
     (\<forall>j. games b j \<noteq> None \<longrightarrow> 1 \<le> j \<and> j \<le> m) \<and>
     (\<forall>q i. q \<le> k \<longrightarrow> i < 2 ^ (k - q) \<longrightarrow> base_id k q + i < m \<longrightarrow>
        games b (base_id k q + 1 + i) = Some (later_game tms k m q i))"

text \<open>The value of the variable \<open>row\<close> of \<open>createBracket\<close> when round \<open>r\<close> begins:
  \<open>let row = 1\<close> before round 2, and \<open>row += Math.floor(Math.pow(2, round - 1))\<close>
  once a round is completed.\<close>

fun row_base :: "nat \<Rightarrow> int" where
  "row_base r = (if r \<le> 2 then 1 else row_base (r - 1) + 2 ^ (r - 2))"

declare row_base.simps [simp del]

text \<open>The stages of \<open>pickTeams\<close>, named for the proofs: the reject pile after the bots
  were added, the pile and the teams after the partner choices were honoured, and the
  dropped player with the pile that remains.\<close>

definition bot_fill :: "string \<Rightarrow> (nat \<Rightarrow> string) \<Rightarrow> string list \<Rightarrow> string list option" where
  "bot_fill host nextBotName rejects0 =
     (if host = ''bots'' then
        (case max_loop (length rejects0) 8 of
           None \<Rightarrow> None
         | Some mx \<Rightarrow>
             Some (fold (\<lambda>i r. set_add r ('':bot:'' @ nextBotName i)) [0..<mx - length rejects0] rejects0))
      else Some rejects0)"

definition matched ::
  "bool \<Rightarrow> (string \<times> string option) list \<Rightarrow> string list \<Rightarrow> string list \<times> team list" where
  "matched choosePartner signups rejects1 =
     (if choosePartner then match_partners signups signups (rejects1, []) else (rejects1, []))"

definition drop_one :: "nat \<Rightarrow> string list \<Rightarrow> error + string option \<times> string list" where
  "drop_one rnd rejects2 =
     (if length rejects2 mod 2 \<noteq> 0 then
        (if \<not> truthy (sample rnd rejects2) then Inl AssertionError
         else Inr (sample rnd rejects2, set_delete rejects2 (the (sample rnd rejects2))))
      else Inr (None, rejects2))"

text \<open>The teams that the loop over \<open>left\<close> forms, read from the end of the array:
  the last two entries first.\<close>

fun pairs_of :: "string list \<Rightarrow> team list" where
  "pairs_of (a # b # r) = Team a b # pairs_of r"
| "pairs_of r = []"

text \<open>What no call changes: the set of games, and every field of a game but its
  \<open>teams\<close>.\<close>

definition frame_kept :: "driver \<Rightarrow> driver \<Rightarrow> bool" where
  "frame_kept d0 d \<longleftrightarrow>
     (\<forall>j. games d j = None \<longrightarrow> games d0 j = None) \<and>
     (\<forall>j g. games d j = Some g \<longrightarrow> (\<exists>g0. games d0 j = Some g0 \<and> g = g0\<lparr>teams := teams g\<rparr>))"

text \<open>The test that the loop over the entries makes on an entry \<open>(user, partner)\<close>: the
  user is in the pile, has named a partner, the partner is in the pile, and the partner's
  own entry names the user.\<close>

definition mutual ::
  "(string \<times> string option) list \<Rightarrow> string list \<Rightarrow> string \<times> string option \<Rightarrow> bool" where
  "mutual signups rejects e \<longleftrightarrow>
     fst e \<in> set rejects \<and>
     (case snd e of None \<Rightarrow> False
      | Some p \<Rightarrow> p \<noteq> [] \<and> p \<in> set rejects \<and> map_of signups p = Some (Some (fst e)))"

text \<open>The identifiers of a dropped player, as a multiset: none or one.\<close>

definition mset_dropped :: "string option \<Rightarrow> string multiset" where
  "mset_dropped dropped = (case dropped of None \<Rightarrow> {#} | Some u \<Rightarrow> {#u#})"


text \<open>The walk over the permuted entries in the words of the specification, to be
  compared with the loop of the code: for each user still in the pool who declared a
  partner (a non-empty name) still in the pool whose own declared partner is exactly
  this user, form a team of the two and remove both from the pool. The result is the
  teams in the order they were found, and the pool that remains.\<close>

definition spec_mutual ::
  "(string \<times> string option) list \<Rightarrow> string list \<Rightarrow> string \<Rightarrow> string option \<Rightarrow> bool" where
  "spec_mutual signups pool user partner \<longleftrightarrow>
     user \<in> set pool \<and>
     (case partner of None \<Rightarrow> False
      | Some p \<Rightarrow> p \<noteq> [] \<and> p \<in> set pool \<and> map_of signups p = Some (Some user))"

fun spec_walk ::
  "(string \<times> string option) list \<Rightarrow> (string \<times> string option) list \<Rightarrow> string list \<Rightarrow>
   team list \<times> string list"
where
  "spec_walk signups [] pool = ([], pool)"
| "spec_walk signups ((user, partner) # rest) pool =
     (if spec_mutual signups pool user partner
      then (case spec_walk signups rest (removeAll (the partner) (removeAll user pool)) of
              (found, pool') \<Rightarrow> (Team user (the partner) # found, pool'))
      else spec_walk signups rest pool)"

section \<open>Lemmas on createBracket\<close>

lemma nth_js_Some [simp]: "i < length xs \<Longrightarrow> nth_js xs i = Some (xs ! i)"
  by (simp add: nth_js_def)

lemma game_count_loop_terminates:
  "0 < g \<Longrightarrow> \<exists>j. game_count_loop n g = Some (g * 2 ^ j) \<and> n \<le> 2 * (g * 2 ^ j)
      \<and> (j = 0 \<or> g * 2 ^ j < n)"
proof (induction "n - 2 * g" arbitrary: g rule: less_induct)
  case less
  show ?case
  proof (cases "n > 2 * g")
    case False
    then have "game_count_loop n g = Some (g * 2 ^ 0)"
      by (subst game_count_loop.simps) simp
    with False show ?thesis by (intro exI[of _ 0]) simp
  next
    case True
    with less.prems have "n - 2 * (g * 2) < n - 2 * g" by arith
    from less.hyps[OF this] less.prems obtain j where
      j: "game_count_loop n (g * 2) = Some (g * 2 * 2 ^ j)" "n \<le> 2 * (g * 2 * 2 ^ j)"
         "j = 0 \<or> g * 2 * 2 ^ j < n" by auto
    have "game_count_loop n g = game_count_loop n (g * 2)"
      using True by (subst game_count_loop.simps) simp
    with j True show ?thesis
      by (intro exI[of _ "Suc j"]) (auto simp: mult_ac)
  qed
qed

lemma game_count_2:
  "4 \<le> n \<Longrightarrow> \<exists>k\<ge>1. game_count_loop n 2 = Some (2 ^ k) \<and> n \<le> 2 ^ (k + 1) \<and> 2 ^ k < n"
proof -
  assume n: "4 \<le> n"
  from game_count_loop_terminates[of 2 n] obtain j where
    j: "game_count_loop n 2 = Some (2 * 2 ^ j)" "n \<le> 2 * (2 * 2 ^ j)" "j = 0 \<or> 2 * 2 ^ j < n"
    by auto
  have "2 * 2 ^ j < n" using j(3) n by auto
  with j show ?thesis by (intro exI[of _ "Suc j"]) simp
qed

lemma floor_log2_pow [simp]: "floor_log2 (2 ^ k) = k"
proof (induction k)
  case 0 show ?case by (simp add: floor_log2.simps)
next
  case (Suc k)
  have "floor_log2 (2 ^ Suc k) = Suc (floor_log2 (2 ^ Suc k div 2))"
    by (subst floor_log2.simps) simp
  with Suc show ?case by simp
qed

lemma for_loop_append:
  "for_loop (xs @ ys) body s = (case for_loop xs body s of Inl e \<Rightarrow> Inl e | Inr s' \<Rightarrow> for_loop ys body s')"
  by (induction xs arbitrary: s) (auto split: sum.splits)

lemma for_loop_upt_Suc:
  "a \<le> n \<Longrightarrow> for_loop [a..<Suc n] body s = (case for_loop [a..<n] body s of Inl e \<Rightarrow> Inl e | Inr s' \<Rightarrow> body n s')"
  by (simp add: for_loop_append split: sum.splits)

lemma create_round1_step:
  "create_round1 n (created_state k n) = Inr (created_state k (Suc n))"
  by (auto simp: create_round1_def push_round_def created_state_def round1_rounds_def fun_eq_iff)

lemma create_round1_loop:
  "for_loop [0..<n] create_round1 \<lparr>games = Map.empty, rounds = replicate (k + 1) []\<rparr>
     = Inr (created_state k n)"
proof (induction n)
  case 0
  show ?case by (simp add: created_state_def round1_rounds_def fun_eq_iff)
next
  case (Suc n)
  then show ?case by (simp add: for_loop_append create_round1_step)
qed

lemma fill_order_pos:
  assumes "even gc" "v < gc"
  shows "fill_order gc (fill_pos gc v) = v"
proof -
  from assms(1) obtain h where h: "gc = 2 * h" by (rule evenE)
  show ?thesis
  proof (cases "even v")
    case True
    then obtain w where w: "v = 2 * w" by (rule evenE)
    with assms(2) h have "w < h" by simp
    then show ?thesis unfolding fill_order_def fill_pos_def h w by simp
  next
    case False
    then obtain w where w: "v = 2 * w + 1" by (rule oddE)
    with assms(2) h have wh: "w < h" by simp
    then have a: "\<not> 2 * h - 1 - w < h" by linarith
    have b: "2 * (2 * h - 1 - (2 * h - 1 - w)) + 1 = 2 * w + 1" using wh by linarith
    have c: "(2 * w + 1) div 2 = w" by simp
    have d: "(2 * h) div 2 = h" by simp
    have e: "\<not> even (2 * w + 1)" by simp
    show ?thesis unfolding fill_order_def fill_pos_def h w c d using a b e by (simp only: if_False)
  qed
qed

lemma fill_pos_less:
  assumes "even gc" "v < gc"
  shows "fill_pos gc v < gc"
proof -
  from assms have "0 < gc" by simp
  then have "gc - 1 - v div 2 < gc" by linarith
  moreover have "v div 2 < gc" using assms(2) by linarith
  ultimately show ?thesis unfolding fill_pos_def by (cases "even v") simp_all
qed

lemma fill_order_less:
  assumes "even gc" "p < gc"
  shows "fill_order gc p < gc"
proof -
  from assms(1) obtain h where h: "gc = 2 * h" by (rule evenE)
  have d: "(2 * h) div 2 = h" by simp
  show ?thesis
  proof (cases "p < h")
    case True
    then show ?thesis unfolding fill_order_def h d by simp
  next
    case False
    with assms(2) h have "2 * (2 * h - 1 - p) + 1 < 2 * h" by linarith
    with False show ?thesis unfolding fill_order_def h d by simp
  qed
qed

lemma fill_order_inj:
  assumes "even gc" "p < gc" "fill_order gc p = v"
  shows "p = fill_pos gc v"
proof -
  from assms(1) obtain h where h: "gc = 2 * h" by (rule evenE)
  have d: "(2 * h) div 2 = h" by simp
  show ?thesis
  proof (cases "p < h")
    case True
    then have "v = 2 * p" using assms(3) unfolding fill_order_def h d by simp
    then show ?thesis unfolding fill_pos_def by simp
  next
    case False
    then have v: "v = 2 * (2 * h - 1 - p) + 1" using assms(3) unfolding fill_order_def h d by simp
    have c: "(2 * (2 * h - 1 - p) + 1) div 2 = 2 * h - 1 - p" by simp
    have e: "\<not> even (2 * (2 * h - 1 - p) + 1)" by simp
    have "p = 2 * h - 1 - (2 * h - 1 - p)" using assms(2) h by linarith
    then show ?thesis unfolding fill_pos_def v h c using e by (simp only: if_False)
  qed
qed

lemma created_is_filled0: "created_state k gc = filled_state tms k gc 0"
  by (simp add: created_state_def filled_state_def fun_eq_iff)

lemma populate_game_step:
  assumes gc: "even gc" and N: "gc < length tms" "length tms \<le> 2 * gc" and v: "v < gc"
  shows "(case fill_vars tms k gc v of (b, byes, tp, bottom) \<Rightarrow>
           populate_game tms b (fill_pos gc v) 0 byes tp bottom) = Inr (fill_vars tms k gc (Suc v))"
proof -
  let ?p = "fill_pos gc v"
  have p: "?p < gc" using fill_pos_less[OF gc v] .
  have fo: "fill_order gc ?p = v" using fill_order_pos[OF gc v] .
  have inj: "\<And>j. 1 \<le> j \<Longrightarrow> j \<le> gc \<Longrightarrow> j \<noteq> Suc ?p \<Longrightarrow> fill_order gc (j - 1) \<noteq> v"
    using fill_order_inj[OF gc] by fastforce
  have rd: "nth_js (rounds (filled_state tms k gc v)) 0 = Some [1..<gc + 1]"
    by (simp add: filled_state_def round1_rounds_def nth_js_def)
  have g: "nth_js [1..<gc + 1] ?p = Some (Suc ?p)"
    using p by (simp add: nth_js_def del: upt_Suc)
  have t: "nth_js tms v = Some (tms ! v)" using v N by simp
  show ?thesis
  proof (cases "v < 2 * gc - length tms")
    case True
    then have byes: "max 0 (int (gc * 2) - int (length tms) - int v) > 0" by simp
    have gm: "upd_game (upd_game (upd_game (upd_game (upd_game (games (filled_state tms k gc v)) (Suc ?p)
            (\<lambda>x. x\<lparr>teams := teams x @ [tms ! v]\<rparr>)) (Suc ?p) (\<lambda>x. x\<lparr>teams := teams x @ [Bye]\<rparr>))
            (Suc ?p) (\<lambda>x. x\<lparr>started := True\<rparr>)) (Suc ?p) (\<lambda>x. x\<lparr>finished := True\<rparr>))
            (Suc ?p) (\<lambda>x. x\<lparr>row := int ?p * 2\<rparr>) = games (filled_state tms k gc (Suc v))"
      using True p fo inj
      by (auto simp: fun_eq_iff upd_game_def filled_state_def filled_game_def seated_def new_Game_def less_Suc_eq)
    show ?thesis
      unfolding fill_vars_def prod.case populate_game_def rd g t option.case Let_def
      using byes True gm
      by (simp add: bracket.equality filled_state_def)
  next
    case False
    then have byes: "\<not> max 0 (int (gc * 2) - int (length tms) - int v) > 0" by simp
    let ?bot = "length tms - 1 - (v - (2 * gc - length tms))"
    have bot: "int (length tms) - 1 - max 0 (int v - (int (gc * 2) - int (length tms))) = int ?bot"
      using False N v by (simp add: max_def) 
    have tb: "nth_js_int tms (int ?bot) = Some (tms ! ?bot)"
      using N by (simp add: nth_js_int_def)
    have gm: "upd_game (upd_game (upd_game (games (filled_state tms k gc v)) (Suc ?p)
            (\<lambda>x. x\<lparr>teams := teams x @ [tms ! v]\<rparr>)) (Suc ?p) (\<lambda>x. x\<lparr>teams := teams x @ [tms ! ?bot]\<rparr>))
            (Suc ?p) (\<lambda>x. x\<lparr>row := int ?p * 2\<rparr>) = games (filled_state tms k gc (Suc v))"
      using False p fo inj
      by (auto simp: fun_eq_iff upd_game_def filled_state_def filled_game_def seated_def new_Game_def less_Suc_eq)
    have b0: "max 0 (int (gc * 2) - int (length tms) - int v) = 0"
         "max 0 (int (gc * 2) - int (length tms) - int (Suc v)) = 0"
      using False by auto
    have bot': "int (length tms) - 1 - max 0 (int (Suc v) - (int (gc * 2) - int (length tms))) = int ?bot - 1"
      using False N v by (simp add: max_def)
    have st: "filled_state tms k gc v\<lparr>games := games (filled_state tms k gc (Suc v))\<rparr>
               = filled_state tms k gc (Suc v)"
      by (simp add: filled_state_def)
    show ?thesis
      unfolding fill_vars_def prod.case populate_game_def rd g t option.case Let_def bot tb gm b0 bot' st
      by simp
  qed
qed

lemma populate_pair_step:
  assumes gc: "even gc" and N: "gc < length tms" "length tms \<le> 2 * gc" and i: "i < gc div 2"
  shows "populate_pair tms gc i (fill_vars tms k gc (2 * i)) = Inr (fill_vars tms k gc (2 * i + 2))"
proof -
  have v1: "2 * i < gc" and v2: "Suc (2 * i) < gc" using gc i by (auto elim!: evenE)
  have p1: "fill_pos gc (2 * i) = i" by (simp add: fill_pos_def)
  have p2: "fill_pos gc (Suc (2 * i)) = gc - (1 + i)" by (simp add: fill_pos_def)
  from populate_game_step[OF gc N v1, of k] populate_game_step[OF gc N v2, of k]
  show ?thesis
    unfolding p1 p2 populate_pair_def Let_def
    by (auto split: prod.splits)
qed

lemma populate_loop:
  assumes gc: "even gc" and N: "gc < length tms" "length tms \<le> 2 * gc"
  shows "n \<le> gc div 2 \<Longrightarrow>
     for_loop [0..<n] (populate_pair tms gc) (fill_vars tms k gc 0) = Inr (fill_vars tms k gc (2 * n))"
proof (induction n)
  case 0
  show ?case by simp
next
  case (Suc n)
  then have "n < gc div 2" by simp
  from populate_pair_step[OF gc N this, of k] Suc show ?case
    by (simp add: for_loop_append)
qed

lemma fill_vars_0:
  "length tms \<le> 2 * gc \<Longrightarrow>
   fill_vars tms k gc 0 = (created_state k gc, int (gc * 2) - int (length tms), 0, int (length tms) - 1)"
  using created_is_filled0[of k gc tms] by (simp add: fill_vars_def)

lemma base_id_closed: "q \<le> k + 1 \<Longrightarrow> base_id k q + 2 ^ (k + 1 - q) = 2 ^ (k + 1)"
proof (induction q)
  case 0 show ?case by simp
next
  case (Suc q)
  then have "base_id k q + 2 ^ (k + 1 - q) = 2 ^ (k + 1)" by simp
  moreover have "(2::nat) ^ (k + 1 - q) = 2 ^ (k - q) + 2 ^ (k + 1 - Suc q)"
    using Suc.prems by (simp add: Suc_diff_le)
  ultimately show ?case by simp
qed

lemma base_id_mono: "q \<le> q' \<Longrightarrow> base_id k q \<le> base_id k q'"
proof (induction q')
  case 0 then show ?case by simp
next
  case (Suc q')
  show ?case
  proof (cases "q = Suc q'")
    case True then show ?thesis by simp
  next
    case False
    with Suc.prems have "q \<le> q'" by simp
    from Suc.IH[OF this] show ?thesis by simp
  qed
qed

lemma base_id_next: "q < q' \<Longrightarrow> base_id k q + 2 ^ (k - q) \<le> base_id k q'"
  using base_id_mono[of "Suc q" q' k] by simp

lemma base_id_1: "base_id k (Suc 0) = 2 ^ k" by simp

lemma base_id_inj:
  assumes "base_id k q + i = base_id k q' + i'" "i < 2 ^ (k - q)" "i' < 2 ^ (k - q')"
  shows "q = q' \<and> i = i'"
proof -
  have "\<not> q < q'" using base_id_next[of q q' k] assms by auto
  moreover have "\<not> q' < q" using base_id_next[of q' q k] assms by auto
  ultimately have "q = q'" by auto
  with assms show ?thesis by simp
qed

lemma later_rounds_start: "later_rounds k (2 ^ k) = round1_rounds k (2 ^ k)"
proof -
  have e: "[base_id k q + 1 ..< Suc (min (base_id k (Suc q)) (2 ^ k))] = []" if "0 < q" for q
  proof -
    have "2 ^ k \<le> base_id k q"
      using base_id_mono[of "Suc 0" q k] that by simp
    then have "min (base_id k (Suc q)) (2 ^ k) \<le> base_id k q"
      by (rule min.coboundedI2)
    then have "Suc (min (base_id k (Suc q)) (2 ^ k)) \<le> base_id k q + 1"
      by (simp only: Suc_le_mono Suc_eq_plus1[symmetric])
    then show ?thesis by (rule upt_conv_Nil)
  qed
  have "map (\<lambda>q. [base_id k q + 1 ..< Suc (min (base_id k (Suc q)) (2 ^ k))]) [1..<k + 1]
       = map (\<lambda>q. []) [1..<k + 1]"
  proof (rule map_cong[OF refl])
    fix x assume "x \<in> set [1..<k + 1]"
    then have "0 < x" by (simp del: upt_Suc)
    then show "[base_id k x + 1 ..< Suc (min (base_id k (Suc x)) (2 ^ k))] = []" by (rule e)
  qed
  then have "map (\<lambda>q. [base_id k q + 1 ..< Suc (min (base_id k (Suc q)) (2 ^ k))]) [1..<k + 1]
       = replicate k []"
    by (simp only: map_replicate_const) simp
  moreover have "[0..<k + 1] = 0 # [1..<k + 1]" by (simp add: upt_rec)
  ultimately show ?thesis
    by (simp add: later_rounds_def round1_rounds_def del: upt_Suc)
qed

lemma built_start:
  assumes "1 \<le> k"
  shows "built tms k (2 ^ k) (filled_state tms k (2 ^ k) (2 ^ k))"
  unfolding built_def
proof (intro conjI allI impI)
  show "rounds (filled_state tms k (2 ^ k) (2 ^ k)) = later_rounds k (2 ^ k)"
    by (simp add: filled_state_def later_rounds_start)
next
  fix j assume "games (filled_state tms k (2 ^ k) (2 ^ k)) j \<noteq> None"
  then show "1 \<le> j" "j \<le> 2 ^ k" by (auto simp: filled_state_def split: if_splits)
next
  fix q i assume q: "q \<le> k" and i: "i < 2 ^ (k - q)" and m: "base_id k q + i < 2 ^ k"
  have q0: "q = 0"
  proof (rule ccontr)
    assume "q \<noteq> 0"
    then have "2 ^ k \<le> base_id k q" using base_id_mono[of "Suc 0" q k] by simp
    with m show False by simp
  qed
  have ev: "even ((2::nat) ^ k)" using assms by simp
  have nx: "\<not> base_id k (Suc 0) + 1 + i div 2 \<le> 2 ^ k" by simp
  show "games (filled_state tms k (2 ^ k) (2 ^ k)) (base_id k q + 1 + i)
          = Some (later_game tms k (2 ^ k) q i)"
    using i fill_order_less[OF ev, of i] nx unfolding q0
    by (simp add: filled_state_def later_game_def filled_game_def del: base_id.simps(2))
qed

lemma create_game_games:
  assumes "p1 \<noteq> gid" "p2 \<noteq> gid" "p1 \<noteq> p2"
  shows "upd_game (upd_game (upd_game (upd_game (upd_game (upd_game (gs(gid \<mapsto> G)) gid f1) gid f2)
            p1 g1) p2 g2) gid f3) gid f4
       = (\<lambda>j. if j = gid then Some (f4 (f3 (f2 (f1 G))))
               else if j = p1 then map_option g1 (gs j)
               else if j = p2 then map_option g2 (gs j) else gs j)"
  using assms by (auto simp: fun_eq_iff upd_game_def)

lemma later_rounds_length [simp]: "length (later_rounds k m) = k + 1"
  by (simp add: later_rounds_def)

lemma later_rounds_nth:
  "q \<le> k \<Longrightarrow> later_rounds k m ! q = [base_id k q + 1 ..< Suc (min (base_id k (Suc q)) m)]"
  unfolding later_rounds_def
  by (subst nth_map) (simp_all del: upt_Suc base_id.simps)

lemma later_rounds_step:
  assumes q: "q \<le> k" and n: "n < 2 ^ (k - q)"
  shows "(later_rounds k (base_id k q + n))[q := later_rounds k (base_id k q + n) ! q @ [Suc (base_id k q + n)]]
          = later_rounds k (Suc (base_id k q + n))"
proof (rule nth_equalityI)
  show "length ((later_rounds k (base_id k q + n))[q := later_rounds k (base_id k q + n) ! q @ [Suc (base_id k q + n)]])
     = length (later_rounds k (Suc (base_id k q + n)))" by simp
next
  fix r assume "r < length ((later_rounds k (base_id k q + n))[q := later_rounds k (base_id k q + n) ! q @ [Suc (base_id k q + n)]])"
  then have r: "r \<le> k" by simp
  let ?m = "base_id k q + n"
  consider "r < q" | "r = q" | "q < r" by arith
  then show "(later_rounds k ?m)[q := later_rounds k ?m ! q @ [Suc ?m]] ! r = later_rounds k (Suc ?m) ! r"
  proof cases
    case 1
    then have "base_id k (Suc r) \<le> base_id k q" by (intro base_id_mono) simp
    then have "min (base_id k (Suc r)) ?m = base_id k (Suc r)"
              "min (base_id k (Suc r)) (Suc ?m) = base_id k (Suc r)" by (simp_all del: base_id.simps)
    with 1 r show ?thesis by (simp add: later_rounds_nth del: base_id.simps upt_Suc)
  next
    case 2
    have "min (base_id k (Suc q)) ?m = ?m" "min (base_id k (Suc q)) (Suc ?m) = Suc ?m"
      using n by simp_all
    with 2 r show ?thesis by (simp add: later_rounds_nth del: base_id.simps)
  next
    case 3
    then have "base_id k q + 2 ^ (k - q) \<le> base_id k r" by (rule base_id_next)
    with n have "Suc ?m \<le> base_id k r" by simp
    then have "[base_id k r + 1 ..< Suc (min (base_id k (Suc r)) ?m)] = []"
        "[base_id k r + 1 ..< Suc (min (base_id k (Suc r)) (Suc ?m))] = []"
      by (simp_all del: base_id.simps add: min_le_iff_disj)
    with 3 r show ?thesis by (simp add: later_rounds_nth del: base_id.simps upt_Suc)
  qed
qed

lemma upt_nth_js: "i < b - a \<Longrightarrow> nth_js [a..<b] i = Some (a + i)"
  by (simp add: nth_js_def)

lemma later_game_next_same:
  assumes q: "1 \<le> q" "q \<le> k" and n: "n < 2 ^ (k - q)"
    and q': "q' \<le> k" and i': "i' < 2 ^ (k - q')"
    and ne: "\<not> (Suc q' = q \<and> i' div 2 = n)"
  shows "later_game tms k (Suc (base_id k q + n)) q' i' = later_game tms k (base_id k q + n) q' i'"
proof -
  have "base_id k (Suc q') + 1 + i' div 2 \<noteq> Suc (base_id k q + n)" if "q' < k"
  proof
    assume "base_id k (Suc q') + 1 + i' div 2 = Suc (base_id k q + n)"
    then have e: "base_id k (Suc q') + i' div 2 = base_id k q + n" by simp
    have "(2::nat) ^ (k - q') = 2 * 2 ^ (k - Suc q')" using that
      by (metis Suc_diff_Suc power_Suc)
    with i' have "i' div 2 < 2 ^ (k - Suc q')" by simp
    from base_id_inj[OF e this n] ne show False by simp
  qed
  then show ?thesis
    by (auto simp: later_game_def simp del: base_id.simps)
qed

lemma create_game_step:
  assumes inv: "built tms k (base_id k q + n) b"
    and q: "1 \<le> q" "q \<le> k" and n: "n < 2 ^ (k - q)"
  shows "\<exists>b'. create_game (2 ^ k) (q + 1) (2 * (int (q + 1) - 1)) (2 ^ q - 1) (2 ^ (k - q)) n
                 (b, Suc (base_id k q + n)) = Inr (b', Suc (Suc (base_id k q + n)))
             \<and> built tms k (Suc (base_id k q + n)) b'"
proof -
  let ?m = "base_id k q + n"
  let ?gid = "Suc ?m"
  obtain q0 where q0: "q = Suc q0" using q by (cases q) auto
  let ?p1 = "base_id k q0 + 1 + 2 * n"
  let ?p2 = "base_id k q0 + 1 + (2 * n + 1)"
  from inv have R: "rounds b = later_rounds k ?m"
    and D: "\<And>j. games b j \<noteq> None \<Longrightarrow> 1 \<le> j \<and> j \<le> ?m"
    and G: "\<And>q i. q \<le> k \<Longrightarrow> i < 2 ^ (k - q) \<Longrightarrow> base_id k q + i < ?m \<Longrightarrow>
               games b (base_id k q + 1 + i) = Some (later_game tms k ?m q i)"
    unfolding built_def by blast+
  have cnt: "(2::nat) ^ (k - q0) = 2 * 2 ^ (k - q)" using q q0
    by (metis Suc_diff_Suc Suc_le_lessD power_Suc)
  have bq: "base_id k q = base_id k q0 + 2 * 2 ^ (k - q)" using q0 cnt by simp
  have push: "push_round b q ?gid = Inr (b\<lparr>rounds := later_rounds k ?gid\<rparr>)"
    using q later_rounds_step[OF q(2) n] by (simp add: push_round_def R)
  have prev: "nth_js (later_rounds k ?gid) q0 = Some [base_id k q0 + 1 ..< Suc (base_id k q)]"
  proof -
    have "q0 \<le> k" using q q0 by simp
    moreover have "min (base_id k (Suc q0)) ?gid = base_id k q" using q0 by simp
    ultimately show ?thesis using q0 by (simp add: nth_js_def later_rounds_nth del: base_id.simps upt_Suc)
  qed
  have pr1: "nth_js [base_id k q0 + 1 ..< Suc (base_id k q)] (n * 2) = Some ?p1"
    and pr2: "nth_js [base_id k q0 + 1 ..< Suc (base_id k q)] (n * 2 + 1) = Some ?p2"
    using n bq by (simp_all add: nth_js_def mult.commute del: upt_Suc)
  have p1: "?p1 \<noteq> ?gid" and p2: "?p2 \<noteq> ?gid" and p12: "?p1 \<noteq> ?p2"
    using n bq by simp_all
  let ?G = "\<lparr> game_id = ?gid, teams = [], round = q + 1, started = False, finished = False,
              col = 2 * (int (q + 1) - 1), row = 2 ^ q - 1 + int (2 ^ k div 2 ^ (k - q) * n * 2),
              previous_games = [?p1, ?p2], next_game = None \<rparr>"
  let ?gs = "\<lambda>j. if j = ?gid then Some ?G
               else if j = ?p1 then map_option (\<lambda>x. x\<lparr>next_game := Some ?gid\<rparr>) (games b j)
               else if j = ?p2 then map_option (\<lambda>x. x\<lparr>next_game := Some ?gid\<rparr>) (games b j)
               else games b j"
  let ?b' = "b\<lparr>rounds := later_rounds k ?gid, games := ?gs\<rparr>"
  have run: "create_game (2 ^ k) (q + 1) (2 * (int (q + 1) - 1)) (2 ^ q - 1) (2 ^ (k - q)) n (b, ?gid)
              = Inr (?b', Suc ?gid)"
  proof -
    have s1: "q + 1 - 1 = q" and s2: "q + 1 - 2 = q0" and s3: "n * 2 + 1 = n * 2 + 1"
      using q0 by simp_all
    have rb: "rounds (b\<lparr>rounds := later_rounds k ?gid\<rparr>) = later_rounds k ?gid" 
      and gb: "games (b\<lparr>rounds := later_rounds k ?gid\<rparr>) = games b" by simp_all
    show ?thesis
      unfolding create_game_def prod.case s1 s2 push sum.case Let_def rb gb prev option.case
        pr1 pr2 create_game_games[OF p1 p2 p12]
      by (simp add: new_Game_def del: base_id.simps cong: if_cong)
  qed
  have "built tms k ?gid ?b'"
    unfolding built_def
  proof (intro conjI allI impI)
    show "rounds ?b' = later_rounds k ?gid" by simp
  next
    fix j assume "games ?b' j \<noteq> None"
    then show "1 \<le> j" "j \<le> ?gid" using D[of j] by (auto split: if_splits)
  next
    fix q' i' assume q': "q' \<le> k" and i': "i' < 2 ^ (k - q')" and lt: "base_id k q' + i' < ?gid"
    let ?j = "base_id k q' + 1 + i'"
    consider (new) "?j = ?gid" | (a) "?j = ?p1" | (b) "?j = ?p2"
      | (old) "?j \<noteq> ?gid" "?j \<noteq> ?p1" "?j \<noteq> ?p2" by blast
    then show "games ?b' ?j = Some (later_game tms k ?gid q' i')"
    proof cases
      case new
      then have "base_id k q' + i' = base_id k q + n" by simp
      from base_id_inj[OF this i' n] have e: "q' = q" "i' = n" by simp_all
      have "(2::nat) ^ k div 2 ^ (k - q) = 2 ^ q" using q
        by (metis diff_diff_cancel diff_le_self power_diff zero_neq_numeral)
      then show ?thesis using q q0 n unfolding e
        by (simp add: later_game_def)
    next
      case a
      then have "base_id k q' + i' = base_id k q0 + 2 * n" by simp
      moreover have "2 * n < 2 ^ (k - q0)" using n cnt by simp
      ultimately have e: "q' = q0" "i' = 2 * n" using base_id_inj[OF _ i'] by blast+
      have "base_id k q0 + 2 * n < ?m" using bq n by simp
      moreover have "q0 \<le> k" using q q0 by simp
      ultimately have "games b ?p1 = Some (later_game tms k ?m q0 (2 * n))"
        using G[of q0 "2 * n"] \<open>2 * n < 2 ^ (k - q0)\<close> by simp
      then show ?thesis using p1 q q0 unfolding e
        by (simp add: later_game_def)
    next
      case b
      then have "base_id k q' + i' = base_id k q0 + (2 * n + 1)" by simp
      moreover have "2 * n + 1 < 2 ^ (k - q0)" using n cnt by simp
      ultimately have e: "q' = q0" "i' = 2 * n + 1" using base_id_inj[OF _ i'] by blast+
      have "base_id k q0 + (2 * n + 1) < ?m" using bq n by simp
      moreover have "q0 \<le> k" using q q0 by simp
      ultimately have "games b ?p2 = Some (later_game tms k ?m q0 (2 * n + 1))"
        using G[of q0 "2 * n + 1"] \<open>2 * n + 1 < 2 ^ (k - q0)\<close> by simp
      then show ?thesis using p2 p12 q q0 unfolding e
        by (simp add: later_game_def)
    next
      case old
      then have "base_id k q' + i' < ?m" using lt by simp
      from G[OF q' i' this] have g: "games b ?j = Some (later_game tms k ?m q' i')" .
      have "\<not> (Suc q' = q \<and> i' div 2 = n)"
      proof
        assume "Suc q' = q \<and> i' div 2 = n"
        then have "q' = q0" "i' = 2 * n \<or> i' = 2 * n + 1" using q0 by auto
        with old show False by auto
      qed
      from later_game_next_same[OF q n q' i' this] g old show ?thesis by simp
    qed
  qed
  with run show ?thesis by blast
qed

lemma create_games_loop:
  assumes q: "1 \<le> q" "q \<le> k" and inv: "built tms k (base_id k q) b"
  shows "n \<le> 2 ^ (k - q) \<Longrightarrow>
     \<exists>b'. for_loop [0..<n] (create_game (2 ^ k) (q + 1) (2 * (int (q + 1) - 1)) (2 ^ q - 1) (2 ^ (k - q)))
             (b, Suc (base_id k q)) = Inr (b', Suc (base_id k q + n))
          \<and> built tms k (base_id k q + n) b'"
proof (induction n)
  case 0
  with inv show ?case by simp
next
  case (Suc n)
  then obtain b1 where
    l: "for_loop [0..<n] (create_game (2 ^ k) (q + 1) (2 * (int (q + 1) - 1)) (2 ^ q - 1) (2 ^ (k - q)))
             (b, Suc (base_id k q)) = Inr (b1, Suc (base_id k q + n))"
    and b1: "built tms k (base_id k q + n) b1" by auto
  from Suc.prems have "n < 2 ^ (k - q)" by simp
  from create_game_step[OF b1 q this] l show ?case
    by (auto simp: for_loop_append)
qed

lemma create_round_step:
  assumes q: "1 \<le> q" "q \<le> k" and inv: "built tms k (base_id k q) b"
  shows "\<exists>b'. create_round (2 ^ k) (q + 1) (b, 2 ^ (k - q), 2 ^ q - 1, Suc (base_id k q))
            = Inr (b', 2 ^ (k - q) div 2, 2 ^ (q + 1) - 1, Suc (base_id k (Suc q)))
          \<and> built tms k (base_id k (Suc q)) b'"
proof -
  from create_games_loop[OF q inv, of "2 ^ (k - q)"] obtain b' where
    l: "for_loop [0..<2 ^ (k - q)] (create_game (2 ^ k) (q + 1) (2 * (int (q + 1) - 1)) (2 ^ q - 1) (2 ^ (k - q)))
             (b, Suc (base_id k q)) = Inr (b', Suc (base_id k q + 2 ^ (k - q)))"
    and b': "built tms k (base_id k q + 2 ^ (k - q)) b'" by auto
  show ?thesis
    unfolding create_round_def prod.case Let_def l sum.case
    using b' by simp
qed

lemma create_rounds_loop:
  assumes inv: "built tms k (2 ^ k) b"
  shows "Q \<le> k \<Longrightarrow>
     \<exists>b'. for_loop [2..<Q + 2] (create_round (2 ^ k)) (b, 2 ^ k div 2, 1, 2 ^ k + 1)
            = Inr (b', 2 ^ k div 2 ^ Suc Q, 2 ^ Suc Q - 1, Suc (base_id k (Suc Q)))
          \<and> built tms k (base_id k (Suc Q)) b'"
proof (induction Q)
  case 0
  with inv show ?case by simp
next
  case (Suc Q)
  then obtain b1 where
    l: "for_loop [2..<Q + 2] (create_round (2 ^ k)) (b, 2 ^ k div 2, 1, 2 ^ k + 1)
            = Inr (b1, 2 ^ k div 2 ^ Suc Q, 2 ^ Suc Q - 1, Suc (base_id k (Suc Q)))"
    and b1: "built tms k (base_id k (Suc Q)) b1" by auto
  have q: "1 \<le> Suc Q" "Suc Q \<le> k" using Suc.prems by simp_all
  have d1: "(2::nat) ^ k div 2 ^ Suc Q = 2 ^ (k - Suc Q)"
    using q by (simp add: power_diff)
  have d2: "(2::nat) ^ (k - Suc Q) div 2 = 2 ^ k div 2 ^ Suc (Suc Q)"
  proof -
    have "(2::nat) ^ k div 2 ^ Suc (Suc Q) = 2 ^ k div (2 ^ Suc Q * 2)"
      by (simp only: power_Suc2)
    also have "\<dots> = 2 ^ k div 2 ^ Suc Q div 2" by (simp only: div_mult2_eq)
    finally show ?thesis unfolding d1 by simp
  qed
  from create_round_step[OF q b1] obtain b' where
    s: "create_round (2 ^ k) (Suc Q + 1) (b1, 2 ^ (k - Suc Q), 2 ^ Suc Q - 1, Suc (base_id k (Suc Q)))
            = Inr (b', 2 ^ (k - Suc Q) div 2, 2 ^ (Suc Q + 1) - 1, Suc (base_id k (Suc (Suc Q))))"
    and b': "built tms k (base_id k (Suc (Suc Q))) b'" by blast
  have e: "[2..<Suc Q + 2] = [2..<Q + 2] @ [Suc Q + 1]" by simp
  have "for_loop [2..<Suc Q + 2] (create_round (2 ^ k)) (b, 2 ^ k div 2, 1, 2 ^ k + 1)
      = Inr (b', 2 ^ (k - Suc Q) div 2, 2 ^ (Suc Q + 1) - 1, Suc (base_id k (Suc (Suc Q))))"
    unfolding e for_loop_append l sum.case d1 for_loop.simps s by (rule refl)
  then have "for_loop [2..<Suc Q + 2] (create_round (2 ^ k)) (b, 2 ^ k div 2, 1, 2 ^ k + 1)
      = Inr (b', 2 ^ k div 2 ^ Suc (Suc Q), 2 ^ Suc (Suc Q) - 1, Suc (base_id k (Suc (Suc Q))))"
    unfolding d2 by (simp del: base_id.simps)
  with b' show ?case by blast
qed

lemma base_id_last: "base_id k (Suc k) = 2 ^ (k + 1) - 1"
  using base_id_closed[of "Suc k" k] by simp

lemma createBracket_built:
  assumes "4 \<le> length tms"
  shows "\<exists>k b. 1 \<le> k \<and> 2 ^ k < length tms \<and> length tms \<le> 2 ^ (k + 1)
           \<and> game_count_loop (length tms) 2 = Some (2 ^ k)
           \<and> createBracket tms = Some (Inr b) \<and> built tms k (2 ^ (k + 1) - 1) b"
proof -
  from game_count_2[OF assms] obtain k where k: "1 \<le> k"
    and gc: "game_count_loop (length tms) 2 = Some (2 ^ k)"
    and N: "length tms \<le> 2 ^ (k + 1)" "2 ^ k < length tms" by blast
  have ev: "even ((2::nat) ^ k)" using k by simp
  have N': "length tms \<le> 2 * 2 ^ k" using N by simp
  have l1: "for_loop [0..<2 ^ k] create_round1 \<lparr>games = Map.empty, rounds = replicate (k + 1) []\<rparr>
      = Inr (created_state k (2 ^ k))" by (rule create_round1_loop)
  have h: "2 * (2 ^ k div 2) = (2::nat) ^ k" using ev by simp
  have l2: "for_loop [0..<2 ^ k div 2] (populate_pair tms (2 ^ k))
        (created_state k (2 ^ k), int (2 ^ k * 2) - int (length tms), 0, int (length tms) - 1)
      = Inr (fill_vars tms k (2 ^ k) (2 ^ k))"
    using populate_loop[OF ev N(2) N', of "2 ^ k div 2" k] fill_vars_0[OF N', of k] h by simp
  from create_rounds_loop[OF built_start[OF k], of k tms] obtain b where
    l3: "for_loop [2..<k + 2] (create_round (2 ^ k)) (filled_state tms k (2 ^ k) (2 ^ k), 2 ^ k div 2, 1, 2 ^ k + 1)
            = Inr (b, 2 ^ k div 2 ^ Suc k, 2 ^ Suc k - 1, Suc (base_id k (Suc k)))"
    and b: "built tms k (base_id k (Suc k)) b" by blast
  have "createBracket tms = Some (Inr b)"
    using assms unfolding createBracket_def initial_byes_def round_count_of_def Let_def gc option.case
      floor_log2_pow l1 sum.case l2
      fill_vars_def prod.case
    using l3 by simp
  with k gc N b show ?thesis unfolding base_id_last by blast
qed

lemma base_id_le_last: "q \<le> Suc k \<Longrightarrow> base_id k q \<le> 2 ^ (k + 1) - 1"
  using base_id_mono[of q "Suc k" k] by (simp only: base_id_last)

lemma final_rounds_nth:
  assumes "built tms k (2 ^ (k + 1) - 1) b" "q \<le> k"
  shows "rounds b ! q = [base_id k q + 1 ..< Suc (base_id k (Suc q))]"
proof -
  have "base_id k (Suc q) \<le> 2 ^ (k + 1) - 1" using assms(2) by (intro base_id_le_last) simp
  then have "min (base_id k (Suc q)) (2 ^ (k + 1) - 1) = base_id k (Suc q)" by (rule min.absorb1)
  with assms show ?thesis
    unfolding built_def by (simp only: later_rounds_nth)
qed

lemma final_rounds_length:
  assumes "built tms k (2 ^ (k + 1) - 1) b"
  shows "length (rounds b) = k + 1"
  using assms unfolding built_def by simp

lemma final_round_length:
  assumes "built tms k (2 ^ (k + 1) - 1) b" "q \<le> k"
  shows "length (rounds b ! q) = 2 ^ (k - q)"
  unfolding final_rounds_nth[OF assms] by simp

lemma final_round_nth:
  assumes "built tms k (2 ^ (k + 1) - 1) b" "q \<le> k" "i < 2 ^ (k - q)"
  shows "rounds b ! q ! i = base_id k q + 1 + i"
  unfolding final_rounds_nth[OF assms(1,2)] using assms(3) by (simp del: upt_Suc)

lemma final_game:
  assumes "built tms k (2 ^ (k + 1) - 1) b" "q \<le> k" "i < 2 ^ (k - q)"
  shows "games b (base_id k q + 1 + i) = Some (later_game tms k (2 ^ (k + 1) - 1) q i)"
proof -
  have "base_id k q + 2 ^ (k - q) \<le> 2 ^ (k + 1) - 1"
    using base_id_le_last[of "Suc q" k] assms(2) by simp
  with assms(3) have "base_id k q + i < 2 ^ (k + 1) - 1" by simp
  with assms show ?thesis unfolding built_def by blast
qed

lemma final_next_game:
  assumes "q \<le> k" "i < 2 ^ (k - q)"
  shows "next_game (later_game tms k (2 ^ (k + 1) - 1) q i)
           = (if q < k then Some (base_id k (Suc q) + 1 + i div 2) else None)"
proof (cases "q < k")
  case False then show ?thesis by (simp add: later_game_def)
next
  case True
  then have c: "(2::nat) ^ (k - q) = 2 * 2 ^ (k - Suc q)"
    by (metis Suc_diff_Suc power_Suc)
  with assms have "i div 2 < 2 ^ (k - Suc q)" by simp
  moreover have "base_id k (Suc q) + 2 ^ (k - Suc q) \<le> 2 ^ (k + 1) - 1"
    using base_id_le_last[of "Suc (Suc q)" k] True by simp
  ultimately have "base_id k (Suc q) + 1 + i div 2 \<le> 2 ^ (k + 1) - 1" by simp
  with True show ?thesis by (simp add: later_game_def del: base_id.simps)
qed

lemma game_located:
  assumes "1 \<le> j" "j \<le> 2 ^ (k + 1) - 1"
  shows "\<exists>q i. q \<le> k \<and> i < 2 ^ (k - q) \<and> j = base_id k q + 1 + i"
proof -
  have "\<And>Q. Q \<le> Suc k \<Longrightarrow> j \<le> base_id k Q \<Longrightarrow> \<exists>q i. q \<le> k \<and> i < 2 ^ (k - q) \<and> j = base_id k q + 1 + i"
  proof -
    fix Q show "Q \<le> Suc k \<Longrightarrow> j \<le> base_id k Q \<Longrightarrow> \<exists>q i. q \<le> k \<and> i < 2 ^ (k - q) \<and> j = base_id k q + 1 + i"
    proof (induction Q)
      case 0 with assms show ?case by simp
    next
      case (Suc Q)
      show ?case
      proof (cases "j \<le> base_id k Q")
        case True with Suc show ?thesis by simp
      next
        case False
        with Suc.prems have "Q \<le> k \<and> j - base_id k Q - 1 < 2 ^ (k - Q) \<and> j = base_id k Q + 1 + (j - base_id k Q - 1)"
          by auto
        then show ?thesis by blast
      qed
    qed
  qed
  from this[of "Suc k"] assms show ?thesis by (simp only: base_id_last) 
qed

lemma final_dom:
  assumes "built tms k (2 ^ (k + 1) - 1) b" "games b j = Some g"
  shows "\<exists>q i. q \<le> k \<and> i < 2 ^ (k - q) \<and> j = base_id k q + 1 + i
            \<and> g = later_game tms k (2 ^ (k + 1) - 1) q i"
proof -
  from assms have "1 \<le> j \<and> j \<le> 2 ^ (k + 1) - 1" unfolding built_def by auto
  then obtain q i where qi: "q \<le> k" "i < 2 ^ (k - q)" "j = base_id k q + 1 + i"
    using game_located by blast
  with final_game[OF assms(1) qi(1,2)] assms(2) show ?thesis by auto
qed

lemma final_rounds_eq:
  assumes "built tms k (2 ^ (k + 1) - 1) b"
  shows "rounds b = map (\<lambda>q. [base_id k q + 1 ..< base_id k (Suc q) + 1]) [0..<k + 1]"
proof (rule nth_equalityI)
  show "length (rounds b) = length (map (\<lambda>q. [base_id k q + 1 ..< base_id k (Suc q) + 1]) [0..<k + 1])"
    using final_rounds_length[OF assms] by simp
next
  fix q assume "q < length (rounds b)"
  then have q: "q \<le> k" using final_rounds_length[OF assms] by simp
  then have "map (\<lambda>q. [base_id k q + 1 ..< base_id k (Suc q) + 1]) [0..<k + 1] ! q
      = [base_id k q + 1 ..< base_id k (Suc q) + 1]"
    by (subst nth_map) (simp_all del: upt_Suc base_id.simps)
  with final_rounds_nth[OF assms q] show "rounds b ! q = map (\<lambda>q. [base_id k q + 1 ..< base_id k (Suc q) + 1]) [0..<k + 1] ! q"
    by simp
qed

lemma concat_rounds_upt:
  "concat (map (\<lambda>q. [base_id k q + 1 ..< base_id k (Suc q) + 1]) [0..<n]) = [1 ..< base_id k n + 1]"
proof (induction n)
  case 0 show ?case by simp
next
  case (Suc n)
  have "[1 ..< base_id k n + 1 + 2 ^ (k - n)] = [1 ..< base_id k n + 1] @ [base_id k n + 1 ..< base_id k n + 1 + 2 ^ (k - n)]"
    by (rule upt_add_eq_append) simp
  with Suc show ?case by (simp add: add.commute add.left_commute)
qed

lemma final_concat:
  assumes "built tms k (2 ^ (k + 1) - 1) b"
  shows "concat (rounds b) = [1 ..< 2 * 2 ^ k]"
  unfolding final_rounds_eq[OF assms] concat_rounds_upt
  using base_id_closed[of "Suc k" k] by (simp del: base_id.simps)

text \<open>
  Claim C2. With fewer than four teams \<open>createBracket\<close> returns the empty map and no
  rounds. With \<open>N \<ge> 4\<close> teams the loop ends with \<open>game_count\<close> a power of two, at
  least 2, with \<open>N \<le> 2 * game_count\<close>, and no smaller such power satisfies that bound;
  \<open>byes = 2 * game_count - N\<close> is not negative, so \<open>2 * game_count = N + byes\<close>;
  \<open>round_count\<close> is \<open>floor (log2 game_count) + 1\<close>, where \<open>floor_log2\<close> is exact on
  \<open>game_count\<close>; the bracket has \<open>round_count\<close> rounds and \<open>game_count\<close> games in the
  first. \<open>canceled\<close> holds exactly when \<open>rounds\<close> is empty, which is exactly when
  \<open>N < 4\<close>.
\<close>

theorem createBracket_counts:
  "(length tms < 4 \<longrightarrow> createBracket tms = Some (Inr \<lparr>games = Map.empty, rounds = []\<rparr>)) \<and>
   (4 \<le> length tms \<longrightarrow>
      (\<exists>gc b. game_count_loop (length tms) 2 = Some gc \<and> createBracket tms = Some (Inr b) \<and>
          (\<exists>k\<ge>1. gc = 2 ^ k) \<and> length tms \<le> 2 * gc \<and>
          (\<forall>j\<ge>1. length tms \<le> 2 * 2 ^ j \<longrightarrow> gc \<le> 2 ^ j) \<and>
          initial_byes gc (length tms) = int (2 * gc) - int (length tms) \<and>
          0 \<le> initial_byes gc (length tms) \<and>
          int (2 * gc) = int (length tms) + initial_byes gc (length tms) \<and>
          round_count_of gc = floor_log2 gc + 1 \<and> 2 ^ floor_log2 gc = gc \<and>
          length (rounds b) = round_count_of gc \<and> length (rounds b ! 0) = gc)) \<and>
   (\<forall>b. createBracket tms = Some (Inr b) \<longrightarrow>
        (canceled b \<longleftrightarrow> rounds b = []) \<and> (canceled b \<longleftrightarrow> length tms < 4))"
proof (cases "length tms < 4")
  case True
  then have "createBracket tms = Some (Inr \<lparr>games = Map.empty, rounds = []\<rparr>)"
    by (simp add: createBracket_def)
  with True show ?thesis by (auto simp: canceled_def)
next
  case False
  then have N: "4 \<le> length tms" by simp
  from createBracket_built[OF N] obtain k b where k: "1 \<le> k"
    and lo: "2 ^ k < length tms" and hi: "length tms \<le> 2 ^ (k + 1)"
    and gc: "game_count_loop (length tms) 2 = Some (2 ^ k)"
    and cb: "createBracket tms = Some (Inr b)"
    and bu: "built tms k (2 ^ (k + 1) - 1) b" by blast
  have least: "2 ^ k \<le> (2::nat) ^ j" if "length tms \<le> 2 * 2 ^ j" for j
  proof -
    from lo that have "(2::nat) ^ k < 2 ^ Suc j" by simp
    then have "k < Suc j" by (simp only: power_strict_increasing_iff rel_simps)
    then show ?thesis by (simp add: power_increasing)
  qed
  have len: "length (rounds b) = k + 1" by (rule final_rounds_length[OF bu])
  have len0: "length (rounds b ! 0) = 2 ^ k" using final_round_length[OF bu, of 0] by simp
  have "\<exists>k'\<ge>1. (2::nat) ^ k = 2 ^ k'" using k by blast
  moreover have "length tms \<le> 2 * 2 ^ k" using hi by simp
  moreover have "\<forall>j\<ge>1. length tms \<le> 2 * 2 ^ j \<longrightarrow> 2 ^ k \<le> (2::nat) ^ j" using least by blast
  moreover have "initial_byes (2 ^ k) (length tms) = int (2 * 2 ^ k) - int (length tms)"
    by (simp add: initial_byes_def)
  moreover have "0 \<le> initial_byes (2 ^ k) (length tms)"
  proof -
    from hi have "length tms \<le> 2 ^ k * 2" by simp
    then have "int (length tms) \<le> int (2 ^ k * 2)" by (simp only: of_nat_le_iff)
    then show ?thesis unfolding initial_byes_def by linarith
  qed
  moreover have "int (2 * 2 ^ k) = int (length tms) + initial_byes (2 ^ k) (length tms)"
    by (simp add: initial_byes_def)
  moreover have "round_count_of (2 ^ k) = floor_log2 (2 ^ k) + 1" by (simp add: round_count_of_def)
  moreover have "2 ^ floor_log2 (2 ^ k) = (2::nat) ^ k" by simp
  moreover have "length (rounds b) = round_count_of (2 ^ k)" using len by (simp add: round_count_of_def)
  ultimately have A: "\<exists>gc b. game_count_loop (length tms) 2 = Some gc \<and> createBracket tms = Some (Inr b) \<and>
          (\<exists>k\<ge>1. gc = 2 ^ k) \<and> length tms \<le> 2 * gc \<and>
          (\<forall>j\<ge>1. length tms \<le> 2 * 2 ^ j \<longrightarrow> gc \<le> 2 ^ j) \<and>
          initial_byes gc (length tms) = int (2 * gc) - int (length tms) \<and>
          0 \<le> initial_byes gc (length tms) \<and>
          int (2 * gc) = int (length tms) + initial_byes gc (length tms) \<and>
          round_count_of gc = floor_log2 gc + 1 \<and> 2 ^ floor_log2 gc = gc \<and>
          length (rounds b) = round_count_of gc \<and> length (rounds b ! 0) = gc"
    using gc cb len0 by blast
  have "\<not> canceled b" using len by (simp add: canceled_def)
  with cb False have B: "\<forall>b. createBracket tms = Some (Inr b) \<longrightarrow>
        (canceled b \<longleftrightarrow> rounds b = []) \<and> (canceled b \<longleftrightarrow> length tms < 4)"
    by (auto simp: canceled_def)
  from False A B show ?thesis by blast
qed

text \<open>The counts of C2 on five teams: \<open>game_count = 4\<close>, \<open>byes = 3\<close>, three rounds.\<close>

theorem createBracket_counts_witness:
  "\<exists>gc b. game_count_loop 5 2 = Some gc \<and> gc = 4 \<and>
      createBracket [Team ''a'' ''b'', Team ''c'' ''d'', Team ''e'' ''f'', Team ''g'' ''h'', Team ''i'' ''j'']
        = Some (Inr b) \<and>
      initial_byes gc 5 = 3 \<and> round_count_of gc = 3 \<and> length (rounds b) = 3 \<and>
      length (rounds b ! 0) = 4 \<and> \<not> canceled b"
proof -
  let ?T = "[Team ''a'' ''b'', Team ''c'' ''d'', Team ''e'' ''f'', Team ''g'' ''h'', Team ''i'' ''j'']"
  have g: "game_count_loop 5 2 = Some 4" by (simp add: game_count_loop.simps)
  have f: "floor_log2 4 = 2" by (simp add: floor_log2.simps)
  have l: "length ?T = 5" by simp
  have "4 \<le> length ?T" by simp
  with createBracket_counts[of ?T] obtain gc b where
    a: "game_count_loop (length ?T) 2 = Some gc" "createBracket ?T = Some (Inr b)"
    "length (rounds b) = round_count_of gc" "length (rounds b ! 0) = gc"
    "canceled b \<longleftrightarrow> length ?T < 4"
    by blast
  from a(1) g have gc: "gc = 4" unfolding l by simp
  from a(5) have nc: "\<not> canceled b" unfolding l by simp
  have "initial_byes 4 5 = 3" by (simp add: initial_byes_def)
  moreover have "round_count_of 4 = 3" using f by (simp add: round_count_of_def)
  ultimately show ?thesis using a(2,3,4) g nc unfolding gc by simp
qed

text \<open>
  Claim C4. For \<open>N \<ge> 4\<close> teams, with \<open>game_count = 2 ^ k\<close>: the bracket has \<open>k + 1\<close>
  rounds, round \<open>q + 1\<close> with \<open>2 ^ (k - q)\<close> games; the ids, read round by round, are
  \<open>1, 2, \<dots>, 2 * game_count - 1\<close> (so round 1 holds \<open>1 .. game_count\<close> and the later
  rounds continue from \<open>game_count + 1\<close>), and the map holds exactly these games, each
  under its own id. Every game of round 1 has no predecessor and two teams. The game
  at index \<open>i\<close> of a later round has no team yet and exactly the two predecessors at
  indices \<open>2 i\<close> and \<open>2 i + 1\<close> of the round before, both of which name it as their
  \<open>next_game\<close>. The last round holds one game, the final; it is the only game with no
  \<open>next_game\<close>, and the \<open>next_game\<close> of every other game is a game of the next round
  with a larger id.
\<close>

theorem bracket_structure:
  assumes "4 \<le> length tms"
  shows "\<exists>k b. 1 \<le> k \<and> game_count_loop (length tms) 2 = Some (2 ^ k) \<and>
     createBracket tms = Some (Inr b) \<and>
     length (rounds b) = k + 1 \<and>
     rounds b ! 0 = [1 ..< 2 ^ k + 1] \<and>
     concat (rounds b) = [1 ..< 2 * 2 ^ k] \<and>
     (\<forall>j. (\<exists>g. games b j = Some g) \<longleftrightarrow> j \<in> set (concat (rounds b))) \<and>
     (\<forall>j g. games b j = Some g \<longrightarrow> game_id g = j) \<and>
     (\<forall>q\<le>k. length (rounds b ! q) = 2 ^ (k - q)) \<and>
     (\<forall>i<2 ^ k. \<exists>g. games b (rounds b ! 0 ! i) = Some g \<and> round g = 1 \<and>
          previous_games g = [] \<and> length (teams g) = 2) \<and>
     (\<forall>q i. 1 \<le> q \<and> q \<le> k \<and> i < 2 ^ (k - q) \<longrightarrow>
        (\<exists>g p1 p2. games b (rounds b ! q ! i) = Some g \<and> round g = q + 1 \<and> teams g = [] \<and>
           previous_games g = [rounds b ! (q - 1) ! (2 * i), rounds b ! (q - 1) ! (2 * i + 1)] \<and>
           games b (rounds b ! (q - 1) ! (2 * i)) = Some p1 \<and>
           next_game p1 = Some (rounds b ! q ! i) \<and>
           games b (rounds b ! (q - 1) ! (2 * i + 1)) = Some p2 \<and>
           next_game p2 = Some (rounds b ! q ! i))) \<and>
     rounds b ! k = [2 * 2 ^ k - 1] \<and>
     (\<forall>j g. games b j = Some g \<longrightarrow> (next_game g = None \<longleftrightarrow> j = 2 * 2 ^ k - 1)) \<and>
     (\<forall>j g. games b j = Some g \<longrightarrow> j \<noteq> 2 * 2 ^ k - 1 \<longrightarrow>
          (\<exists>s g'. next_game g = Some s \<and> games b s = Some g' \<and> round g' = round g + 1 \<and> j < s))"
proof -
  from createBracket_built[OF assms] obtain k b where k: "1 \<le> k"
    and gc: "game_count_loop (length tms) 2 = Some (2 ^ k)"
    and cb: "createBracket tms = Some (Inr b)"
    and bu: "built tms k (2 ^ (k + 1) - 1) b" by blast
  let ?m = "2 ^ (k + 1) - 1 :: nat"
  note rn = final_round_nth[OF bu] and fg = final_game[OF bu] and fd = final_dom[OF bu]
  have len: "length (rounds b) = k + 1" by (rule final_rounds_length[OF bu])
  have r0: "rounds b ! 0 = [1 ..< 2 ^ k + 1]" using final_rounds_nth[OF bu, of 0] by simp
  have cc: "concat (rounds b) = [1 ..< 2 * 2 ^ k]" by (rule final_concat[OF bu])
  have dom: "(\<exists>g. games b j = Some g) \<longleftrightarrow> j \<in> set (concat (rounds b))" for j
  proof
    assume "\<exists>g. games b j = Some g"
    then have "1 \<le> j \<and> j \<le> ?m" using bu unfolding built_def by auto
    then show "j \<in> set (concat (rounds b))" unfolding cc by auto
  next
    assume "j \<in> set (concat (rounds b))"
    then have "1 \<le> j" "j \<le> ?m" unfolding cc by auto
    from game_located[OF this] fg show "\<exists>g. games b j = Some g" by blast
  qed
  have ids: "game_id g = j" if "games b j = Some g" for j g
    using fd[OF that] by (auto simp: later_game_def)
  have lens: "\<forall>q\<le>k. length (rounds b ! q) = 2 ^ (k - q)"
    using final_round_length[OF bu] by blast
  have first: "\<exists>g. games b (rounds b ! 0 ! i) = Some g \<and> round g = 1 \<and>
          previous_games g = [] \<and> length (teams g) = 2" if "i < 2 ^ k" for i
    using rn[of 0 i] fg[of 0 i] that by (simp add: later_game_def seated_def Let_def)
  have later: "\<exists>g p1 p2. games b (rounds b ! q ! i) = Some g \<and> round g = q + 1 \<and> teams g = [] \<and>
           previous_games g = [rounds b ! (q - 1) ! (2 * i), rounds b ! (q - 1) ! (2 * i + 1)] \<and>
           games b (rounds b ! (q - 1) ! (2 * i)) = Some p1 \<and>
           next_game p1 = Some (rounds b ! q ! i) \<and>
           games b (rounds b ! (q - 1) ! (2 * i + 1)) = Some p2 \<and>
           next_game p2 = Some (rounds b ! q ! i)" if q: "1 \<le> q" "q \<le> k" and i: "i < 2 ^ (k - q)" for q i
  proof -
    obtain q0 where q0: "q = Suc q0" using q by (cases q) auto
    have q0k: "q0 \<le> k" "q0 < k" using q q0 by simp_all
    have c: "(2::nat) ^ (k - q0) = 2 * 2 ^ (k - q)" using q0 q0k
      by (metis Suc_diff_Suc power_Suc)
    then have i1: "2 * i < 2 ^ (k - q0)" and i2: "2 * i + 1 < 2 ^ (k - q0)" using i by simp_all
    have e: "rounds b ! q ! i = base_id k q + 1 + i"
      "rounds b ! (q - 1) ! (2 * i) = base_id k q0 + 1 + 2 * i"
      "rounds b ! (q - 1) ! (2 * i + 1) = base_id k q0 + 1 + (2 * i + 1)"
      using rn[OF q(2) i] rn[OF q0k(1) i1] rn[OF q0k(1) i2] q0 by simp_all
    have n1: "next_game (later_game tms k ?m q0 (2 * i)) = Some (base_id k q + 1 + i)"
      and n2: "next_game (later_game tms k ?m q0 (2 * i + 1)) = Some (base_id k q + 1 + i)"
      using final_next_game[OF q0k(1) i1, of tms] final_next_game[OF q0k(1) i2, of tms] q0k q0
      by simp_all
    have g: "round (later_game tms k ?m q i) = q + 1" "teams (later_game tms k ?m q i) = []"
      "previous_games (later_game tms k ?m q i) = [base_id k q0 + 1 + 2 * i, base_id k q0 + 1 + (2 * i + 1)]"
      using q0 by (simp_all add: later_game_def)
    show ?thesis
      unfolding e using fg[OF q(2) i] fg[OF q0k(1) i1] fg[OF q0k(1) i2] n1 n2 g by blast
  qed
  have last: "rounds b ! k = [2 * 2 ^ k - 1]"
    using final_rounds_nth[OF bu, of k] base_id_closed[of k k] by simp
  have succ: "(next_game g = None \<longleftrightarrow> j = 2 * 2 ^ k - 1) \<and>
       (j \<noteq> 2 * 2 ^ k - 1 \<longrightarrow>
          (\<exists>s g'. next_game g = Some s \<and> games b s = Some g' \<and> round g' = round g + 1 \<and> j < s))"
    if "games b j = Some g" for j g
  proof -
    from fd[OF that] obtain q i where q: "q \<le> k" and i: "i < 2 ^ (k - q)"
      and j: "j = base_id k q + 1 + i" and g: "g = later_game tms k ?m q i" by blast
    show ?thesis
    proof (cases "q < k")
      case False
      with q have qk: "q = k" by simp
      with i have "i = 0" by simp
      with j qk have "j = 2 * 2 ^ k - 1" using base_id_closed[of k k] by simp
      moreover have "next_game g = None" unfolding g using final_next_game[OF q i, of tms] qk by simp
      ultimately show ?thesis by simp
    next
      case True
      then have c: "(2::nat) ^ (k - q) = 2 * 2 ^ (k - Suc q)" by (metis Suc_diff_Suc power_Suc)
      with i have i': "i div 2 < 2 ^ (k - Suc q)" by simp
      have q': "Suc q \<le> k" using True by simp
      have n: "next_game g = Some (base_id k (Suc q) + 1 + i div 2)"
        unfolding g using final_next_game[OF q i, of tms] True by simp
      have lt: "j < base_id k (Suc q) + 1 + i div 2" using j i by simp
      have "base_id k (Suc q) + 2 ^ (k - Suc q) \<le> ?m"
        using base_id_le_last[of "Suc (Suc q)" k] True by simp
      with i' have "base_id k (Suc q) + 1 + i div 2 \<le> ?m" by simp
      with lt have ne: "j \<noteq> 2 * 2 ^ k - 1" by simp
      have "round (later_game tms k ?m (Suc q) (i div 2)) = round g + 1"
        unfolding g by (simp add: later_game_def)
      with n lt ne fg[OF q' i'] show ?thesis by (simp del: base_id.simps)
    qed
  qed
  show ?thesis
    using k gc cb len r0 cc dom ids lens first later last succ by blast
qed

lemma pow2_eq_2: "(2::nat) ^ k = 2 \<Longrightarrow> k = 1"
  using power_inject_exp[of "2::nat" k 1] by simp

lemma pow2_eq_4: "(2::nat) ^ k = 4 \<Longrightarrow> k = 2"
  using power_inject_exp[of "2::nat" k 2] by simp

text \<open>The structure of C4 on four teams: games 1 and 2 feed game 3, the final.\<close>

theorem bracket_structure_witness:
  "\<exists>b g1 g2 g3.
      createBracket [Team ''a'' ''b'', Team ''c'' ''d'', Team ''e'' ''f'', Team ''g'' ''h''] = Some (Inr b) \<and>
      rounds b ! 0 = [1, 2] \<and> rounds b ! 1 = [3] \<and> length (rounds b) = 2 \<and>
      games b 1 = Some g1 \<and> games b 2 = Some g2 \<and> games b 3 = Some g3 \<and>
      previous_games g1 = [] \<and> length (teams g1) = 2 \<and>
      previous_games g3 = [1, 2] \<and> next_game g1 = Some 3 \<and> next_game g2 = Some 3 \<and>
      next_game g3 = None"
proof -
  let ?T = "[Team ''a'' ''b'', Team ''c'' ''d'', Team ''e'' ''f'', Team ''g'' ''h'']"
  have l: "length ?T = 4" by simp
  have g: "game_count_loop 4 2 = Some 2" by (simp add: game_count_loop.simps)
  have "4 \<le> length ?T" by simp
  from bracket_structure[OF this] obtain k b where
    k: "game_count_loop (length ?T) 2 = Some (2 ^ k)"
    and cb: "createBracket ?T = Some (Inr b)"
    and len: "length (rounds b) = k + 1"
    and r0: "rounds b ! 0 = [1 ..< 2 ^ k + 1]"
    and first: "\<forall>i<2 ^ k. \<exists>g. games b (rounds b ! 0 ! i) = Some g \<and> round g = 1 \<and>
          previous_games g = [] \<and> length (teams g) = 2"
    and later: "\<forall>q i. 1 \<le> q \<and> q \<le> k \<and> i < 2 ^ (k - q) \<longrightarrow>
        (\<exists>g p1 p2. games b (rounds b ! q ! i) = Some g \<and> round g = q + 1 \<and> teams g = [] \<and>
           previous_games g = [rounds b ! (q - 1) ! (2 * i), rounds b ! (q - 1) ! (2 * i + 1)] \<and>
           games b (rounds b ! (q - 1) ! (2 * i)) = Some p1 \<and>
           next_game p1 = Some (rounds b ! q ! i) \<and>
           games b (rounds b ! (q - 1) ! (2 * i + 1)) = Some p2 \<and>
           next_game p2 = Some (rounds b ! q ! i))"
    and last: "rounds b ! k = [2 * 2 ^ k - 1]"
    and fin: "\<forall>j g. games b j = Some g \<longrightarrow> (next_game g = None \<longleftrightarrow> j = 2 * 2 ^ k - 1)"
    by blast
  from k g have "(2::nat) ^ k = 2" unfolding l by simp
  then have k1: "k = 1" by (rule pow2_eq_2)
  have r0': "rounds b ! 0 = [1, 2]" using r0 unfolding k1 by (simp add: upt_rec)
  have r1: "rounds b ! 1 = [3]" using last unfolding k1 by simp
  from first[rule_format, of 0] obtain g1 where
    g1: "games b 1 = Some g1" "previous_games g1 = []" "length (teams g1) = 2"
    unfolding k1 r0' by auto
  from later[rule_format, of 1 0] obtain g3 p1 p2 where
    g3: "games b 3 = Some g3" "previous_games g3 = [1, 2]"
      "games b 1 = Some p1" "next_game p1 = Some 3" "games b 2 = Some p2" "next_game p2 = Some 3"
    unfolding k1 using r0' r1 by auto
  from fin[rule_format, OF g3(1)] have "next_game g3 = None" unfolding k1 by simp
  with cb r0' r1 len k1 g1 g3 show ?thesis by auto
qed

lemma row_base_closed: "2 \<le> r \<Longrightarrow> row_base r = 2 ^ (r - 1) - 1"
proof (induction r rule: nat_induct_at_least)
  case base
  show ?case by (simp add: row_base.simps)
next
  case (Suc n)
  then have "row_base (Suc n) = row_base n + 2 ^ (n - 1)"
    by (subst row_base.simps) simp
  moreover obtain m where "n = Suc m" using Suc.hyps by (cases n) auto
  ultimately show ?case using Suc.IH by simp
qed

lemma row_base_step: "2 \<le> r \<Longrightarrow> row_base (r + 1) = row_base r + 2 ^ (r - 1)"
  by (subst row_base.simps) simp

lemma pow2_div_div: "q \<le> k \<Longrightarrow> (2::nat) ^ k div (2 ^ k div 2 ^ q) = 2 ^ q"
proof -
  assume q: "q \<le> k"
  then have "(2::nat) ^ k div 2 ^ q = 2 ^ (k - q)" by (simp add: power_diff)
  moreover have "(2::nat) ^ k div 2 ^ (k - q) = 2 ^ (k - (k - q))"
    by (rule power_diff[symmetric]) simp_all
  ultimately show ?thesis using q by simp
qed

lemma row_base_rec: "3 \<le> r \<Longrightarrow> row_base r = row_base (r - 1) + 2 ^ (r - 2)"
  by (subst row_base.simps) simp

text \<open>
  Claim C5. The game at position \<open>i\<close> of round 1 has row \<open>2 i\<close>; its column is the
  \<open>- 1\<close> of the field initializer, not 0, for every bracket that is built:
  \<open>populate_game\<close> assigns \<open>game.row\<close> and never \<open>game.col\<close>, while the loop over
  the later rounds assigns both. The game at index \<open>i\<close> of round \<open>r = q + 1 \<ge> 2\<close>
  has column \<open>2 (r - 1)\<close> and row \<open>row_base r + (game_count / round_games) * i * 2\<close>,
  where \<open>round_games\<close> is \<open>game_count / 2 ^ (r - 1)\<close> and the base offset of round
  \<open>r\<close> is 1 for round 2 and, from round 3 on, that of round \<open>r - 1\<close> increased by
  \<open>2 ^ (r - 2)\<close>.
\<close>

theorem bracket_layout:
  assumes "4 \<le> length tms"
  shows "\<exists>k b. 1 \<le> k \<and> game_count_loop (length tms) 2 = Some (2 ^ k) \<and>
     createBracket tms = Some (Inr b) \<and>
     (\<forall>i<2 ^ k. \<exists>g. games b (rounds b ! 0 ! i) = Some g \<and> round g = 1 \<and>
          row g = int i * 2 \<and> col g = - 1) \<and>
     (\<forall>q i. 1 \<le> q \<and> q \<le> k \<and> i < 2 ^ (k - q) \<longrightarrow>
        (\<exists>g. games b (rounds b ! q ! i) = Some g \<and> round g = q + 1 \<and>
             col g = 2 * (int (q + 1) - 1) \<and>
             row g = row_base (q + 1) + int (2 ^ k div (2 ^ k div 2 ^ q) * i * 2))) \<and>
     row_base 2 = 1 \<and> (\<forall>r\<ge>3. row_base r = row_base (r - 1) + 2 ^ (r - 2))"
proof -
  from createBracket_built[OF assms] obtain k b where k: "1 \<le> k"
    and gc: "game_count_loop (length tms) 2 = Some (2 ^ k)"
    and cb: "createBracket tms = Some (Inr b)"
    and bu: "built tms k (2 ^ (k + 1) - 1) b" by blast
  have first: "\<exists>g. games b (rounds b ! 0 ! i) = Some g \<and> round g = 1 \<and>
      row g = int i * 2 \<and> col g = - 1" if "i < 2 ^ k" for i
    using final_round_nth[OF bu, of 0 i] final_game[OF bu, of 0 i] that
    by (simp add: later_game_def)
  have later: "\<exists>g. games b (rounds b ! q ! i) = Some g \<and> round g = q + 1 \<and>
             col g = 2 * (int (q + 1) - 1) \<and>
             row g = row_base (q + 1) + int (2 ^ k div (2 ^ k div 2 ^ q) * i * 2)"
    if q: "1 \<le> q" "q \<le> k" and i: "i < 2 ^ (k - q)" for q i
  proof -
    have rb: "row_base (q + 1) = 2 ^ q - 1" using row_base_closed[of "q + 1"] q by simp
    have "round (later_game tms k (2 ^ (k + 1) - 1) q i) = q + 1"
      "col (later_game tms k (2 ^ (k + 1) - 1) q i) = 2 * (int (q + 1) - 1)"
      "row (later_game tms k (2 ^ (k + 1) - 1) q i)
         = row_base (q + 1) + int (2 ^ k div (2 ^ k div 2 ^ q) * i * 2)"
      using q unfolding rb pow2_div_div[OF q(2)] by (simp_all add: later_game_def)
    with final_round_nth[OF bu q(2) i] final_game[OF bu q(2) i] show ?thesis by simp
  qed
  have "row_base 2 = 1" by (simp add: row_base.simps)
  with k gc cb first later row_base_rec show ?thesis by blast
qed

text \<open>The layout of C5 on eight teams: game 1 at row 0 with column \<open>- 1\<close>, game 6 (round 2,
  index 1) at column 2, row 5, and the final (round 3) at column 4, row \<open>3 = 1 + 2\<close>.\<close>

theorem bracket_layout_witness:
  "\<exists>b g1 g6 g7.
      createBracket
        [Team ''a'' ''b'', Team ''c'' ''d'', Team ''e'' ''f'', Team ''g'' ''h'',
         Team ''i'' ''j'', Team ''k'' ''l'', Team ''m'' ''n'', Team ''o'' ''p''] = Some (Inr b) \<and>
      games b (rounds b ! 0 ! 0) = Some g1 \<and> round g1 = 1 \<and> row g1 = 0 \<and> col g1 = - 1 \<and>
      games b (rounds b ! 1 ! 1) = Some g6 \<and> round g6 = 2 \<and> col g6 = 2 \<and> row g6 = 5 \<and>
      games b (rounds b ! 2 ! 0) = Some g7 \<and> round g7 = 3 \<and> col g7 = 4 \<and> row g7 = 3 \<and>
      row_base 3 = row_base 2 + 2"
proof -
  let ?T = "[Team ''a'' ''b'', Team ''c'' ''d'', Team ''e'' ''f'', Team ''g'' ''h'',
         Team ''i'' ''j'', Team ''k'' ''l'', Team ''m'' ''n'', Team ''o'' ''p'']"
  have l: "length ?T = 8" by simp
  have g: "game_count_loop 8 2 = Some 4" by (simp add: game_count_loop.simps)
  have "4 \<le> length ?T" by simp
  from bracket_layout[OF this] obtain k b where
    gc: "game_count_loop (length ?T) 2 = Some (2 ^ k)"
    and cb: "createBracket ?T = Some (Inr b)"
    and first: "\<forall>i<2 ^ k. \<exists>g. games b (rounds b ! 0 ! i) = Some g \<and> round g = 1 \<and>
          row g = int i * 2 \<and> col g = - 1"
    and later: "\<forall>q i. 1 \<le> q \<and> q \<le> k \<and> i < 2 ^ (k - q) \<longrightarrow>
        (\<exists>g. games b (rounds b ! q ! i) = Some g \<and> round g = q + 1 \<and>
             col g = 2 * (int (q + 1) - 1) \<and>
             row g = row_base (q + 1) + int (2 ^ k div (2 ^ k div 2 ^ q) * i * 2))"
    and rb2: "row_base 2 = 1"
    and rec: "\<forall>r\<ge>3. row_base r = row_base (r - 1) + 2 ^ (r - 2)"
    by blast
  from gc g have "(2::nat) ^ k = 4" unfolding l by simp
  then have k2: "k = 2" by (rule pow2_eq_4)
  from rec[rule_format, of 3] have rb3: "row_base 3 = row_base 2 + 2" by simp
  have r2: "row_base (Suc (Suc 0)) = 1" using rb2 by (simp add: numeral_2_eq_2)
  have r3: "row_base 3 = 3" using rb3 rb2 by simp
  have r3': "row_base (Suc (Suc (Suc 0))) = 3" using r3 by (simp add: numeral_3_eq_3)
  from first[rule_format, of 0] obtain g1 where
    g1: "games b (rounds b ! 0 ! 0) = Some g1" "round g1 = 1" "row g1 = 0" "col g1 = - 1"
    unfolding k2 by auto
  from later[rule_format, of 1 1] obtain g6 where
    g6: "games b (rounds b ! 1 ! 1) = Some g6" "round g6 = 2" "col g6 = 2" "row g6 = 5"
    unfolding k2 using r2 rb2 by auto
  from later[rule_format, of 2 0] obtain g7 where
    g7: "games b (rounds b ! 2 ! 0) = Some g7" "round g7 = 3" "col g7 = 4" "row g7 = 3"
    unfolding k2 using r3 r3' by auto
  from cb g1 g6 g7 rb3 show ?thesis by blast
qed

section \<open>Lemmas on the running tournament\<close>

lemma bye_no_Bye: "Bye \<notin> set (teams g) \<Longrightarrow> bye g = None"
  by (auto simp: bye_def split: list.splits)

lemma bye_push:
  assumes "2 \<le> length (teams g)"
  shows "bye (g\<lparr>teams := teams g @ [t]\<rparr>) = bye g"
proof -
  from assms obtain a b rest where "teams g = a # b # rest"
    by (cases "teams g"; cases "tl (teams g)") auto
  then show ?thesis by (simp add: bye_def)
qed

lemma bye_pair: "bye g = Some t \<Longrightarrow> teams g = [a, x] \<Longrightarrow> a \<noteq> Bye \<Longrightarrow> x = Bye \<and> t = a"
  by (auto simp: bye_def split: if_splits)

lemma games_emitted: "games (d\<lparr>emitted := e\<rparr>) = games d"
  by simp

lemma start_cases:
  assumes "start isBot (Suc fuel) d gid = Some (Inr d')"
  obtains (advance) this t nxt where "games d gid = Some this" "bye this = Some t"
      "next_game this = Some nxt"
      "start isBot fuel
         (d\<lparr>emitted := emitted d @ map (AnnounceBye (round this)) (filter (\<lambda>u. \<not> isBot u) (users t)),
            games := upd_game (games d) nxt (\<lambda>x. x\<lparr>teams := teams x @ [t]\<rparr>)\<rparr>) nxt = Some (Inr d')"
    | (wait) this where "games d gid = Some this" "bye this = None" "length (teams this) < 2" "d' = d"
    | (room) this where "games d gid = Some this" "bye this = None" "2 \<le> length (teams this)"
      "d' = d\<lparr>rooms := rooms d @ [\<lparr>room_game = gid, table = seat_table (teams this)\<rparr>],
               emitted := emitted d @
                 [SummonTable (round this) \<lparr>room_game = gid, table = seat_table (teams this)\<rparr>]\<rparr>"
proof (cases "games d gid")
  case None
  with assms show ?thesis by simp
next
  case (Some this)
  note this_def = Some
  show ?thesis
  proof (cases "bye this")
    case (Some t)
    note t_def = Some
    show ?thesis
    proof (cases "next_game this")
      case None
      from assms show ?thesis
        unfolding start.simps this_def option.case t_def Let_def None by simp
    next
      case (Some nxt)
      from assms have "start isBot fuel
         (d\<lparr>emitted := emitted d @ map (AnnounceBye (round this)) (filter (\<lambda>u. \<not> isBot u) (users t)),
            games := upd_game (games d) nxt (\<lambda>x. x\<lparr>teams := teams x @ [t]\<rparr>)\<rparr>) nxt = Some (Inr d')"
        unfolding start.simps this_def option.case t_def Let_def Some games_emitted .
      with this_def t_def Some show ?thesis by (rule advance)
    qed
  next
    case None
    note no_bye = None
    show ?thesis
    proof (cases "length (teams this) < 2")
      case True
      from assms have "d' = d"
        unfolding start.simps this_def option.case no_bye Let_def using True by simp
      with this_def no_bye True show ?thesis by (rule wait)
    next
      case False
      from assms have "Some (Inr (d\<lparr>rooms := rooms d @ [\<lparr>room_game = gid, table = seat_table (teams this)\<rparr>],
               emitted := emitted d @
                 [SummonTable (round this) \<lparr>room_game = gid, table = seat_table (teams this)\<rparr>]\<rparr>))
             = Some (Inr d')"
        unfolding start.simps this_def option.case no_bye Let_def if_not_P[OF False] by simp
      then have "d' = d\<lparr>rooms := rooms d @ [\<lparr>room_game = gid, table = seat_table (teams this)\<rparr>],
               emitted := emitted d @
                 [SummonTable (round this) \<lparr>room_game = gid, table = seat_table (teams this)\<rparr>]\<rparr>"
        by (simp only: option.inject sum.inject)
      moreover have "2 \<le> length (teams this)" using False by simp
      ultimately show ?thesis using this_def no_bye by (intro room[of this])
    qed
  qed
qed

lemma upd_game_apply: "upd_game gs k f j = (if j = k then map_option f (gs j) else gs j)"
  by (simp add: upd_game_def)

lemma push_keeps_inv:
  assumes inv: "run_inv d0 d" and th: "games d gid = Some this" "next_game this = Some nxt"
    and g: "games d' = upd_game (games d) nxt (\<lambda>x. x\<lparr>teams := teams x @ [t]\<rparr>)"
    and r: "rooms d' = rooms d"
  shows "run_inv d0 d'"
proof -
  from inv have L: "links_ok d" and K: "round1_kept d0 d" and R: "rooms_ok d"
    unfolding run_inv_def by simp_all
  from L th obtain gn where gn: "games d nxt = Some gn" "2 \<le> round gn"
    unfolding links_ok_def by blast
  have same: "games d' j = games d j" if "j \<noteq> nxt" for j
    using that unfolding g upd_game_apply by simp
  have at_nxt: "games d' nxt = Some (gn\<lparr>teams := teams gn @ [t]\<rparr>)"
    unfolding g upd_game_apply using gn by simp
  have shape: "\<exists>g'. games d' j = Some g' \<and> round g' = round g \<and> next_game g' = next_game g
        \<and> (j \<noteq> nxt \<longrightarrow> g' = g) \<and> (j = nxt \<longrightarrow> g' = g\<lparr>teams := teams g @ [t]\<rparr>)"
    if "games d j = Some g" for j g
  proof (cases "j = nxt")
    case True
    with that gn have "g = gn" by simp
    with True at_nxt show ?thesis by simp
  next
    case False
    with same that show ?thesis by simp
  qed
  have older: "\<exists>g. games d j = Some g \<and> round g = round g' \<and> next_game g = next_game g'"
    if "games d' j = Some g'" for j g'
  proof (cases "j = nxt")
    case True
    with that at_nxt gn show ?thesis by auto
  next
    case False
    with same that show ?thesis by simp
  qed
  have L': "links_ok d'"
    unfolding links_ok_def
  proof (intro allI impI)
    fix j g nx assume a: "games d' j = Some g" "next_game g = Some nx"
    from older[OF a(1)] obtain g1 where g1: "games d j = Some g1" "next_game g1 = next_game g" by blast
    with a L obtain g2 where "games d nx = Some g2" "2 \<le> round g2"
      unfolding links_ok_def by metis
    with shape[of nx g2] show "\<exists>g'. games d' nx = Some g' \<and> 2 \<le> round g'" by auto
  qed
  have K': "round1_kept d0 d'"
    unfolding round1_kept_def
  proof (intro allI impI)
    fix j g0 assume "games d0 j = Some g0"
    with K obtain g where g: "games d j = Some g" "round g = round g0" "round g0 < 2 \<longrightarrow> g = g0"
      unfolding round1_kept_def by blast
    from shape[OF g(1)] obtain g' where g': "games d' j = Some g'" "round g' = round g"
      "j \<noteq> nxt \<longrightarrow> g' = g" by blast
    have "round g0 < 2 \<longrightarrow> g' = g0"
    proof
      assume lt: "round g0 < 2"
      have "j \<noteq> nxt"
      proof
        assume "j = nxt"
        with g gn have "round g0 \<ge> 2" by simp
        with lt show False by simp
      qed
      with g' g lt show "g' = g0" by simp
    qed
    with g' g show "\<exists>g. games d' j = Some g \<and> round g = round g0 \<and> (round g0 < 2 \<longrightarrow> g = g0)"
      by simp
  qed
  have R': "rooms_ok d'"
    unfolding rooms_ok_def r
  proof
    fix rm assume "rm \<in> set (rooms d)"
    with R obtain g where g: "games d (room_game rm) = Some g" "2 \<le> length (teams g)" "bye g = None"
      unfolding rooms_ok_def by blast
    from shape[OF g(1)] obtain g' where g': "games d' (room_game rm) = Some g'"
      "room_game rm \<noteq> nxt \<longrightarrow> g' = g" "room_game rm = nxt \<longrightarrow> g' = g\<lparr>teams := teams g @ [t]\<rparr>"
      by blast
    show "\<exists>g. games d' (room_game rm) = Some g \<and> 2 \<le> length (teams g) \<and> bye g = None"
    proof (cases "room_game rm = nxt")
      case True
      with g' have "g' = g\<lparr>teams := teams g @ [t]\<rparr>" by simp
      with g g'(1) bye_push[OF g(2), of t] show ?thesis by simp
    next
      case False
      with g' g show ?thesis by simp
    qed
  qed
  from L' K' R' show ?thesis unfolding run_inv_def by simp
qed

lemma push_keeps_bye:
  assumes inv: "run_inv d0 d" and b: "bye_second_only d"
    and th: "games d gid = Some this" "next_game this = Some nxt"
    and g: "games d' = upd_game (games d) nxt (\<lambda>x. x\<lparr>teams := teams x @ [t]\<rparr>)"
    and t: "t \<noteq> Bye"
  shows "bye_second_only d'"
proof -
  from inv have L: "links_ok d" unfolding run_inv_def by simp
  from L th obtain gn where gn: "games d nxt = Some gn" "2 \<le> round gn"
    unfolding links_ok_def by blast
  show ?thesis
    unfolding bye_second_only_def
  proof (intro allI impI)
    fix j g assume a: "games d' j = Some g"
    show "(round g < 2 \<longrightarrow> (\<exists>t x. teams g = [t, x] \<and> t \<noteq> Bye)) \<and>
        (2 \<le> round g \<longrightarrow> Bye \<notin> set (teams g))"
    proof (cases "j = nxt")
      case True
      with a gn have ge: "g = gn\<lparr>teams := teams gn @ [t]\<rparr>" unfolding g upd_game_apply by simp
      from b gn have "Bye \<notin> set (teams gn)" unfolding bye_second_only_def by blast
      with ge gn t show ?thesis by simp
    next
      case False
      with a have "games d j = Some g" unfolding g upd_game_apply by simp
      with b show ?thesis unfolding bye_second_only_def by blast
    qed
  qed
qed

lemma room_keeps_inv:
  assumes inv: "run_inv d0 d" and th: "games d gid = Some this" "bye this = None"
    "2 \<le> length (teams this)"
    and g: "games d' = games d" and r: "rooms d' = rooms d @ [rm]" and rm: "room_game rm = gid"
  shows "run_inv d0 d'"
proof -
  from inv have L: "links_ok d" and K: "round1_kept d0 d" and R: "rooms_ok d"
    unfolding run_inv_def by simp_all
  have "links_ok d'" using L unfolding links_ok_def g .
  moreover have "round1_kept d0 d'" using K unfolding round1_kept_def g .
  moreover have "rooms_ok d'" using R th rm unfolding rooms_ok_def g r by auto
  ultimately show ?thesis unfolding run_inv_def by simp
qed

lemma same_games_inv:
  assumes "run_inv d0 d" "games d' = games d" "rooms d' = rooms d"
  shows "run_inv d0 d'"
  using assms unfolding run_inv_def links_ok_def round1_kept_def rooms_ok_def by simp

lemma same_games_bye:
  assumes "bye_second_only d" "games d' = games d"
  shows "bye_second_only d'"
  using assms unfolding bye_second_only_def by simp

lemma start_keeps_inv:
  "run_inv d0 d \<Longrightarrow> start isBot fuel d gid = Some (Inr d') \<Longrightarrow> run_inv d0 d'"
proof (induction fuel arbitrary: d gid)
  case 0
  then show ?case by simp
next
  case (Suc fuel)
  from Suc.prems(2) show ?case
  proof (cases rule: start_cases)
    case (advance this t nxt)
    have "run_inv d0 (d\<lparr>emitted := emitted d @ map (AnnounceBye (round this)) (filter (\<lambda>u. \<not> isBot u) (users t)),
            games := upd_game (games d) nxt (\<lambda>x. x\<lparr>teams := teams x @ [t]\<rparr>)\<rparr>)"
      by (rule push_keeps_inv[OF Suc.prems(1) advance(1,3)]) simp_all
    from Suc.IH[OF this advance(4)] show ?thesis .
  next
    case (wait this)
    with Suc.prems(1) show ?thesis by simp
  next
    case (room this)
    show ?thesis
      unfolding room(4)
      by (rule room_keeps_inv[OF Suc.prems(1) room(1,2,3), where rm = "\<lparr>room_game = gid, table = seat_table (teams this)\<rparr>"]) simp_all
  qed
qed

lemma start_keeps_bye:
  "run_inv d0 d \<Longrightarrow> bye_second_only d \<Longrightarrow> start isBot fuel d gid = Some (Inr d') \<Longrightarrow>
   bye_second_only d'"
proof (induction fuel arbitrary: d gid)
  case 0
  then show ?case by simp
next
  case (Suc fuel)
  from Suc.prems(3) show ?case
  proof (cases rule: start_cases)
    case (advance this t nxt)
    let ?d = "d\<lparr>emitted := emitted d @ map (AnnounceBye (round this)) (filter (\<lambda>u. \<not> isBot u) (users t)),
            games := upd_game (games d) nxt (\<lambda>x. x\<lparr>teams := teams x @ [t]\<rparr>)\<rparr>"
    have i: "run_inv d0 ?d"
      by (rule push_keeps_inv[OF Suc.prems(1) advance(1,3)]) simp_all
    from Suc.prems(2) advance(1) have sh:
      "(round this < 2 \<longrightarrow> (\<exists>t x. teams this = [t, x] \<and> t \<noteq> Bye)) \<and>
       (2 \<le> round this \<longrightarrow> Bye \<notin> set (teams this))"
      unfolding bye_second_only_def by blast
    have "t \<noteq> Bye"
    proof (cases "round this < 2")
      case True
      with sh obtain a x where ax: "teams this = [a, x]" "a \<noteq> Bye" by blast
      from bye_pair[OF advance(2) ax] ax(2) show ?thesis by simp
    next
      case False
      with sh have "Bye \<notin> set (teams this)" by simp
      from bye_no_Bye[OF this] advance(2) show ?thesis by simp
    qed
    have "bye_second_only ?d"
      by (rule push_keeps_bye[OF Suc.prems(1,2) advance(1,3) _ \<open>t \<noteq> Bye\<close>]) simp
    from Suc.IH[OF i this advance(4)] show ?thesis .
  next
    case (wait this)
    with Suc.prems(2) show ?thesis by simp
  next
    case (room this)
    show ?thesis unfolding room(4)
      by (rule same_games_bye[OF Suc.prems(2)]) simp
  qed
qed

lemma game_over_cases:
  assumes "game_over isBot fuel d i (a, b) = Some (Inr d')"
  obtains (deaf) "d' = d"
    | (final) rm ua ub this where "games d (room_game rm) = Some this" "next_game this = None"
        "d' = d\<lparr>over_done := i # over_done d,
                 emitted := emitted d @ [TournamentOver (Team ua ub) rm]\<rparr>"
        "i \<notin> set (over_done d)" "nth_js (rooms d) i = Some rm"
    | (advance) rm ua ub this nxt where "games d (room_game (rm::room)) = Some this"
        "next_game this = Some nxt"
        "start isBot fuel
           (d\<lparr>over_done := i # over_done d,
              games := upd_game (games d) nxt (\<lambda>x. x\<lparr>teams := teams x @ [Team ua ub]\<rparr>)\<rparr>) nxt
         = Some (Inr d')"
        "i \<notin> set (over_done d)" "nth_js (rooms d) i = Some rm"
proof (cases "i \<in> set (over_done d)")
  case True
  with assms have "d' = d" unfolding game_over_def by simp
  then show ?thesis by (rule deaf)
next
  case False
  note nd = False
  show ?thesis
  proof (cases "nth_js (rooms d) i")
    case None
    with assms nd have "d' = d" unfolding game_over_def by simp
    then show ?thesis by (rule deaf)
  next
    case (Some rm)
    note rm = Some
    show ?thesis
    proof (cases "nth_js (table rm) a")
      case None
      with assms nd rm show ?thesis unfolding game_over_def by simp
    next
      case (Some ua)
      note ua = Some
      show ?thesis
      proof (cases "nth_js (table rm) b")
        case None
        with assms nd rm ua show ?thesis unfolding game_over_def by simp
      next
        case (Some ub)
        note ub = Some
        have go: "game_over isBot fuel d i (a, b) =
            (case games d (room_game rm) of
               None \<Rightarrow> Some (Inl TypeError)
             | Some this \<Rightarrow>
            (case next_game this of
               None \<Rightarrow> Some (Inr (d\<lparr>over_done := i # over_done d,
                      emitted := emitted d @ [TournamentOver (Team ua ub) rm]\<rparr>))
             | Some nxt \<Rightarrow>
                 start isBot fuel
                   (d\<lparr>over_done := i # over_done d,
                      games := upd_game (games d) nxt (\<lambda>x. x\<lparr>teams := teams x @ [Team ua ub]\<rparr>)\<rparr>) nxt))"
          unfolding game_over_def if_not_P[OF nd] rm option.case prod.case ua ub Let_def
          by (simp split: option.splits)
        show ?thesis
        proof (cases "games d (room_game rm)")
          case None
          with assms go show ?thesis by simp
        next
          case (Some this)
          note th = Some
          show ?thesis
          proof (cases "next_game this")
            case None
            with assms go th have e: "d' = d\<lparr>over_done := i # over_done d,
                 emitted := emitted d @ [TournamentOver (Team ua ub) rm]\<rparr>" by simp
            from th None e nd rm show ?thesis by (rule final)
          next
            case (Some nxt)
            with assms go th have "start isBot fuel
           (d\<lparr>over_done := i # over_done d,
              games := upd_game (games d) nxt (\<lambda>x. x\<lparr>teams := teams x @ [Team ua ub]\<rparr>)\<rparr>) nxt
                = Some (Inr d')" by simp
            from th Some this nd rm show ?thesis by (rule advance)
          qed
        qed
      qed
    qed
  qed
qed

lemma game_over_keeps_inv:
  assumes "run_inv d0 d" "game_over isBot fuel d i (a, b) = Some (Inr d')"
  shows "run_inv d0 d'"
  using assms(2)
proof (cases rule: game_over_cases)
  case deaf
  with assms(1) show ?thesis by simp
next
  case (final rm ua ub this)
  show ?thesis unfolding final(3) by (rule same_games_inv[OF assms(1)]) simp_all
next
  case (advance rm ua ub this nxt)
  have "run_inv d0 (d\<lparr>over_done := i # over_done d,
              games := upd_game (games d) nxt (\<lambda>x. x\<lparr>teams := teams x @ [Team ua ub]\<rparr>)\<rparr>)"
    by (rule push_keeps_inv[OF assms(1) advance(1,2)]) simp_all
  from start_keeps_inv[OF this advance(3)] show ?thesis .
qed

lemma game_over_keeps_bye:
  assumes "run_inv d0 d" "bye_second_only d" "game_over isBot fuel d i (a, b) = Some (Inr d')"
  shows "bye_second_only d'"
  using assms(3)
proof (cases rule: game_over_cases)
  case deaf
  with assms(2) show ?thesis by simp
next
  case (final rm ua ub this)
  show ?thesis unfolding final(3) by (rule same_games_bye[OF assms(2)]) simp
next
  case (advance rm ua ub this nxt)
  let ?d = "d\<lparr>over_done := i # over_done d,
              games := upd_game (games d) nxt (\<lambda>x. x\<lparr>teams := teams x @ [Team ua ub]\<rparr>)\<rparr>"
  have i: "run_inv d0 ?d"
    by (rule push_keeps_inv[OF assms(1) advance(1,2)]) simp_all
  have "bye_second_only ?d"
    by (rule push_keeps_bye[OF assms(1,2) advance(1,2), where t = "Team ua ub"]) simp_all
  from start_keeps_bye[OF i this advance(3)] show ?thesis .
qed

lemma reachable_inv:
  assumes "reachable isBot d0 d" "run_inv d0 d0"
  shows "run_inv d0 d"
  using assms
proof (induction rule: reachable.induct)
  case initial
  then show ?case .
next
  case (started d fuel gid d')
  then show ?case using start_keeps_inv by blast
next
  case (over d fuel i a b d')
  then show ?case using game_over_keeps_inv by blast
qed

lemma reachable_bye:
  assumes "reachable isBot d0 d" "run_inv d0 d0" "bye_second_only d0"
  shows "bye_second_only d"
  using assms
proof (induction rule: reachable.induct)
  case initial
  then show ?case by simp
next
  case (started d fuel gid d')
  with reachable_inv[OF started(1)] show ?case using start_keeps_bye by blast
next
  case (over d fuel i a b d')
  with reachable_inv[OF over(1)] show ?case using game_over_keeps_bye by blast
qed

lemma nat_initial_byes: "nat (initial_byes gc n) = 2 * gc - n"
  unfolding initial_byes_def by (simp add: mult.commute)

lemma games_new_driver [simp]: "games (new_driver b) = games b"
  and rooms_new_driver [simp]: "rooms (new_driver b) = []"
  by (simp_all add: new_driver_def)

lemma built_run_inv:
  assumes bu: "built tms k (2 ^ (k + 1) - 1) b"
  shows "run_inv (new_driver b) (new_driver b)"
proof -
  have "links_ok (new_driver b)"
    unfolding links_ok_def games_new_driver
  proof (intro allI impI)
    fix j g nx assume a: "games b j = Some g" "next_game g = Some nx"
    from final_dom[OF bu a(1)] obtain q i where q: "q \<le> k" and i: "i < 2 ^ (k - q)"
      and g: "g = later_game tms k (2 ^ (k + 1) - 1) q i" by blast
    from a(2) final_next_game[OF q i, of tms] have qk: "q < k"
      and nx: "nx = base_id k (Suc q) + 1 + i div 2"
      unfolding g by (auto split: if_splits)
    from qk have "(2::nat) ^ (k - q) = 2 * 2 ^ (k - Suc q)" by (metis Suc_diff_Suc power_Suc)
    with i have i': "i div 2 < 2 ^ (k - Suc q)" by simp
    from qk have q': "Suc q \<le> k" by simp
    have "round (later_game tms k (2 ^ (k + 1) - 1) (Suc q) (i div 2)) = Suc q + 1"
      by (simp add: later_game_def)
    with final_game[OF bu q' i'] show "\<exists>g'. games b nx = Some g' \<and> 2 \<le> round g'"
      unfolding nx by simp
  qed
  moreover have "round1_kept (new_driver b) (new_driver b)"
    unfolding round1_kept_def by simp
  moreover have "rooms_ok (new_driver b)"
    unfolding rooms_ok_def by simp
  ultimately show ?thesis unfolding run_inv_def by simp
qed

lemma built_bye_second:
  assumes bu: "built tms k (2 ^ (k + 1) - 1) b" and k: "1 \<le> k" and N: "2 ^ k < length tms"
    and nb: "Bye \<notin> set tms"
  shows "bye_second_only (new_driver b)"
  unfolding bye_second_only_def games_new_driver
proof (intro allI impI)
  fix j g assume a: "games b j = Some g"
  from final_dom[OF bu a] obtain q i where q: "q \<le> k" and i: "i < 2 ^ (k - q)"
    and g: "g = later_game tms k (2 ^ (k + 1) - 1) q i" by blast
  show "(round g < 2 \<longrightarrow> (\<exists>t x. teams g = [t, x] \<and> t \<noteq> Bye)) \<and>
        (2 \<le> round g \<longrightarrow> Bye \<notin> set (teams g))"
  proof (cases "q = 0")
    case True
    have ev: "even ((2::nat) ^ k)" using k by simp
    from i True have "fill_order (2 ^ k) i < 2 ^ k" using fill_order_less[OF ev] by simp
    with N have "tms ! fill_order (2 ^ k) i \<in> set tms" by simp
    with nb have "tms ! fill_order (2 ^ k) i \<noteq> Bye" by metis
    then show ?thesis unfolding g True by (simp add: later_game_def seated_def Let_def)
  next
    case False
    then show ?thesis unfolding g by (simp add: later_game_def)
  qed
qed

lemma empty_run_inv:
  "run_inv (new_driver \<lparr>games = Map.empty, rounds = []\<rparr>) (new_driver \<lparr>games = Map.empty, rounds = []\<rparr>)"
  unfolding run_inv_def links_ok_def round1_kept_def rooms_ok_def by simp

lemma empty_bye_second: "bye_second_only (new_driver \<lparr>games = Map.empty, rounds = []\<rparr>)"
  unfolding bye_second_only_def by simp

lemma createBracket_invs:
  assumes "createBracket tms = Some (Inr b)"
  shows "run_inv (new_driver b) (new_driver b)"
    and "Bye \<notin> set tms \<Longrightarrow> bye_second_only (new_driver b)"
proof -
  show "run_inv (new_driver b) (new_driver b)"
  proof (cases "length tms < 4")
    case True
    with assms have "b = \<lparr>games = Map.empty, rounds = []\<rparr>" by (simp add: createBracket_def)
    then show ?thesis using empty_run_inv by simp
  next
    case False
    then have "4 \<le> length tms" by simp
    from createBracket_built[OF this] assms show ?thesis using built_run_inv by auto
  qed
  show "bye_second_only (new_driver b)" if "Bye \<notin> set tms"
  proof (cases "length tms < 4")
    case True
    with assms have "b = \<lparr>games = Map.empty, rounds = []\<rparr>" by (simp add: createBracket_def)
    then show ?thesis using empty_bye_second by simp
  next
    case False
    then have "4 \<le> length tms" by simp
    from createBracket_built[OF this] assms that show ?thesis using built_bye_second by auto
  qed
qed

lemma start_room:
  assumes "games d gid = Some this" "bye this = None" "2 \<le> length (teams this)"
  shows "start isBot (Suc n) d gid =
     Some (Inr (d\<lparr>rooms := rooms d @ [\<lparr>room_game = gid, table = seat_table (teams this)\<rparr>],
               emitted := emitted d @
                 [SummonTable (round this) \<lparr>room_game = gid, table = seat_table (teams this)\<rparr>]\<rparr>))"
proof -
  from assms(3) have "\<not> length (teams this) < 2" by simp
  then show ?thesis
    unfolding start.simps assms(1) option.case assms(2) Let_def by simp
qed

lemma start_wait:
  assumes "games d gid = Some this" "bye this = None" "length (teams this) < 2"
  shows "start isBot (Suc n) d gid = Some (Inr d)"
  unfolding start.simps assms(1) option.case assms(2) using assms(3) by simp

lemma no_room_for_bye:
  assumes inv: "run_inv d0 d" and g0: "games d0 j = Some g0" "round g0 < 2" "bye g0 \<noteq> None"
    and r: "r \<in> set (rooms d)"
  shows "room_game r \<noteq> j"
proof
  assume e: "room_game r = j"
  from inv r obtain g where g: "games d (room_game r) = Some g" "bye g = None"
    unfolding run_inv_def rooms_ok_def by blast
  from inv g0 obtain g' where "games d j = Some g'" "g' = g0"
    unfolding run_inv_def round1_kept_def by blast
  with g e g0(3) show False by simp
qed

text \<open>
  Claim C3. For \<open>N \<ge> 4\<close> teams round 1 holds the games with ids
  \<open>1, \<dots>, game_count\<close>, in this order. The pair of calls of pass \<open>i\<close> fills position
  \<open>i\<close> and then position \<open>game_count - 1 - i\<close>: \<open>fill_order\<close> is the number of calls
  of \<open>populate_game\<close> made before the one on a position, which is also the value of
  \<open>top\<close> there. The game at position \<open>p\<close>, filled as call number \<open>v\<close>, holds
  \<open>teams[v]\<close> in its first seat; its second seat holds \<open>Bye\<close> when \<open>v < byes\<close> (byes
  remain) and then \<open>started\<close> and \<open>finished\<close> are set, and otherwise it holds
  \<open>teams[N - 1 - (v - byes)]\<close>, the value of \<open>bottom\<close>, with both flags unset. The
  bracket is a function of the team list. No call of \<open>start\<close> or of a \<open>gameOver\<close>
  handler, in any order, ever constructs a room for a game that was resolved while the
  bracket was built. For five teams \<open>game_count = 4\<close>, \<open>byes = 3\<close> and exactly three games
  of round 1 are resolved with a \<open>Bye\<close>.
\<close>

theorem round1_population:
  assumes "4 \<le> length tms"
  shows "\<exists>gc b. game_count_loop (length tms) 2 = Some gc \<and> createBracket tms = Some (Inr b) \<and>
     rounds b ! 0 = [1 ..< gc + 1] \<and>
     (\<forall>i<gc div 2. fill_order gc i = 2 * i \<and> fill_order gc (gc - 1 - i) = 2 * i + 1) \<and>
     (\<forall>p<gc. \<exists>g. games b (rounds b ! 0 ! p) = Some g \<and> game_id g = p + 1 \<and> round g = 1 \<and>
         fill_order gc p < gc \<and> gc < length tms \<and>
         teams g = [tms ! fill_order gc p,
                    if int (fill_order gc p) < initial_byes gc (length tms) then Bye
                    else tms ! (length tms - 1 - (fill_order gc p - nat (initial_byes gc (length tms))))] \<and>
         started g = (int (fill_order gc p) < initial_byes gc (length tms)) \<and>
         finished g = (int (fill_order gc p) < initial_byes gc (length tms))) \<and>
     (\<forall>isBot d j g. reachable isBot (new_driver b) d \<longrightarrow> games b j = Some g \<longrightarrow> started g \<longrightarrow>
         j \<notin> room_game ` set (rooms d)) \<and>
     (length tms = 5 \<longrightarrow> gc = 4 \<and> initial_byes gc (length tms) = 3 \<and>
         length (filter (\<lambda>j. case games b j of None \<Rightarrow> False
                                | Some g \<Rightarrow> started g \<and> finished g \<and> teams g ! 1 = Bye)
                   (rounds b ! 0)) = 3)"
proof -
  from createBracket_built[OF assms] obtain k b where k: "1 \<le> k"
    and lo: "2 ^ k < length tms" and hi: "length tms \<le> 2 ^ (k + 1)"
    and gc: "game_count_loop (length tms) 2 = Some (2 ^ k)"
    and cb: "createBracket tms = Some (Inr b)"
    and bu: "built tms k (2 ^ (k + 1) - 1) b" by blast
  let ?gc = "2 ^ k :: nat"
  let ?m = "2 ^ (k + 1) - 1 :: nat"
  have ev: "even ?gc" using k by simp
  have r0: "rounds b ! 0 = [1 ..< ?gc + 1]" using final_rounds_nth[OF bu, of 0] by simp
  have ord: "\<forall>i<?gc div 2. fill_order ?gc i = 2 * i \<and> fill_order ?gc (?gc - 1 - i) = 2 * i + 1"
  proof (intro allI impI)
    fix i assume i: "i < ?gc div 2"
    from ev obtain h where h: "?gc = 2 * h" by (rule evenE)
    from i have ih: "i < h" unfolding h by simp
    then have "\<not> 2 * h - 1 - i < h" by linarith
    moreover have "2 * (2 * h - 1 - (2 * h - 1 - i)) + 1 = 2 * i + 1" using ih by linarith
    ultimately show "fill_order ?gc i = 2 * i \<and> fill_order ?gc (?gc - 1 - i) = 2 * i + 1"
      unfolding h fill_order_def using ih by simp
  qed
  have byes: "int v < initial_byes ?gc (length tms) \<longleftrightarrow> v < 2 * ?gc - length tms" for v
  proof -
    define G where "G = (2 ^ k :: nat)"
    have e: "(2 ^ k :: int) = int G" unfolding G_def by simp
    from hi have "length tms \<le> 2 * G" unfolding G_def by simp
    then show ?thesis unfolding initial_byes_def e G_def[symmetric] by linarith
  qed
  have first: "\<exists>g. games b (rounds b ! 0 ! p) = Some g \<and> game_id g = p + 1 \<and> round g = 1 \<and>
         fill_order ?gc p < ?gc \<and> ?gc < length tms \<and>
         teams g = [tms ! fill_order ?gc p,
                    if int (fill_order ?gc p) < initial_byes ?gc (length tms) then Bye
                    else tms ! (length tms - 1 - (fill_order ?gc p - nat (initial_byes ?gc (length tms))))] \<and>
         started g = (int (fill_order ?gc p) < initial_byes ?gc (length tms)) \<and>
         finished g = (int (fill_order ?gc p) < initial_byes ?gc (length tms))"
    if p: "p < ?gc" for p
  proof -
    have g: "games b (rounds b ! 0 ! p) = Some (later_game tms k ?m 0 p)"
      using final_round_nth[OF bu, of 0 p] final_game[OF bu, of 0 p] p by simp
    show ?thesis
      unfolding g byes nat_initial_byes using fill_order_less[OF ev p] lo
      by (simp add: later_game_def seated_def Let_def)
  qed
  have inv0: "run_inv (new_driver b) (new_driver b)" by (rule built_run_inv[OF bu])
  have noroom: "j \<notin> room_game ` set (rooms d)"
    if re: "reachable isBot (new_driver b) d" and g: "games b j = Some g" and st: "started g"
    for isBot d j g
  proof -
    from final_dom[OF bu g] obtain q i where q: "q \<le> k" and i: "i < 2 ^ (k - q)"
      and ge: "g = later_game tms k ?m q i" by blast
    from st have q0: "q = 0" and v: "fill_order ?gc i < 2 * ?gc - length tms"
      unfolding ge by (simp_all add: later_game_def)
    have "round g < 2" unfolding ge q0 by (simp add: later_game_def)
    moreover have "bye g \<noteq> None"
      unfolding ge q0 using v by (simp add: later_game_def seated_def Let_def bye_def)
    moreover have "games (new_driver b) j = Some g" using g by simp
    ultimately have "room_game r \<noteq> j" if "r \<in> set (rooms d)" for r
      using no_room_for_bye[OF reachable_inv[OF re inv0] _ _ _ that] by blast
    then show ?thesis by blast
  qed
  have five: "?gc = 4 \<and> initial_byes ?gc (length tms) = 3 \<and>
         length (filter (\<lambda>j. case games b j of None \<Rightarrow> False
                                | Some g \<Rightarrow> started g \<and> finished g \<and> teams g ! 1 = Bye)
                   (rounds b ! 0)) = 3" if l: "length tms = 5"
  proof -
    have "game_count_loop 5 2 = Some 4" by (simp add: game_count_loop.simps)
    with gc have "?gc = 4" unfolding l by simp
    then have k2: "k = 2" by (rule pow2_eq_4)
    have r: "rounds b ! 0 = [1, 2, 3, 4]" unfolding r0 k2 by (simp add: upt_rec)
    have g1: "games b 1 = Some (later_game tms 2 7 0 0)"
      using final_game[OF bu, of 0 0] unfolding k2 by simp
    have g2: "games b 2 = Some (later_game tms 2 7 0 1)"
      using final_game[OF bu, of 0 1] unfolding k2 by (simp add: eval_nat_numeral)
    have g3: "games b 3 = Some (later_game tms 2 7 0 2)"
      using final_game[OF bu, of 0 2] unfolding k2 by (simp add: eval_nat_numeral)
    have g4: "games b 4 = Some (later_game tms 2 7 0 3)"
      using final_game[OF bu, of 0 3] unfolding k2 by (simp add: eval_nat_numeral)
    have "length (filter (\<lambda>j. case games b j of None \<Rightarrow> False
                                | Some g \<Rightarrow> started g \<and> finished g \<and> teams g ! 1 = Bye)
                   (rounds b ! 0)) = 3"
      unfolding r by (simp add: g1[unfolded One_nat_def] g1 g2 g3 g4 later_game_def seated_def fill_order_def l Let_def)
    moreover have "initial_byes 4 5 = 3" by (simp add: initial_byes_def)
    ultimately show ?thesis using \<open>?gc = 4\<close> l by simp
  qed
  from gc cb r0 ord first noroom five show ?thesis by blast
qed

text \<open>The population of C3 on five teams: games 1, 4 and 2 (in the order they are filled)
  take the first three teams and a \<open>Bye\<close> each, game 3 takes the last two teams; starting
  game 3 constructs the one room, and none is constructed for games 1, 2 and 4.\<close>

theorem round1_population_witness:
  "\<exists>b g1 g2 g3 g4 d.
      createBracket [Team ''a'' ''b'', Team ''c'' ''d'', Team ''e'' ''f'', Team ''g'' ''h'',
                     Team ''i'' ''j''] = Some (Inr b) \<and>
      game_count_loop 5 2 = Some 4 \<and> initial_byes 4 5 = 3 \<and> rounds b ! 0 = [1, 2, 3, 4] \<and>
      games b 1 = Some g1 \<and> games b 2 = Some g2 \<and> games b 3 = Some g3 \<and> games b 4 = Some g4 \<and>
      teams g1 = [Team ''a'' ''b'', Bye] \<and> started g1 \<and> finished g1 \<and>
      teams g4 = [Team ''c'' ''d'', Bye] \<and> started g4 \<and> finished g4 \<and>
      teams g2 = [Team ''e'' ''f'', Bye] \<and> started g2 \<and> finished g2 \<and>
      teams g3 = [Team ''g'' ''h'', Team ''i'' ''j''] \<and> \<not> started g3 \<and> \<not> finished g3 \<and>
      reachable (\<lambda>u. False) (new_driver b) d \<and> map room_game (rooms d) = [3] \<and>
      1 \<notin> room_game ` set (rooms d) \<and> 2 \<notin> room_game ` set (rooms d) \<and>
      4 \<notin> room_game ` set (rooms d)"
proof -
  let ?T = "[Team ''a'' ''b'', Team ''c'' ''d'', Team ''e'' ''f'', Team ''g'' ''h'', Team ''i'' ''j'']"
  have l: "length ?T = 5" by simp
  have "4 \<le> length ?T" by simp
  from round1_population[OF this] obtain gc b where
    gl: "game_count_loop (length ?T) 2 = Some gc"
    and cb: "createBracket ?T = Some (Inr b)"
    and r0: "rounds b ! 0 = [1 ..< gc + 1]"
    and first: "\<forall>p<gc. \<exists>g. games b (rounds b ! 0 ! p) = Some g \<and> game_id g = p + 1 \<and> round g = 1 \<and>
         fill_order gc p < gc \<and> gc < length ?T \<and>
         teams g = [?T ! fill_order gc p,
                    if int (fill_order gc p) < initial_byes gc (length ?T) then Bye
                    else ?T ! (length ?T - 1 - (fill_order gc p - nat (initial_byes gc (length ?T))))] \<and>
         started g = (int (fill_order gc p) < initial_byes gc (length ?T)) \<and>
         finished g = (int (fill_order gc p) < initial_byes gc (length ?T))"
    and noroom: "\<forall>isBot d j g. reachable isBot (new_driver b) d \<longrightarrow> games b j = Some g \<longrightarrow> started g \<longrightarrow>
         j \<notin> room_game ` set (rooms d)"
    and five: "length ?T = 5 \<longrightarrow> gc = 4 \<and> initial_byes gc (length ?T) = 3 \<and>
         length (filter (\<lambda>j. case games b j of None \<Rightarrow> False
                                | Some g \<Rightarrow> started g \<and> finished g \<and> teams g ! 1 = Bye)
                   (rounds b ! 0)) = 3"
    by blast
  from five[unfolded l] have gc: "gc = 4" by simp
  have by3: "initial_byes 4 5 = 3" by (simp add: initial_byes_def)
  have r: "rounds b ! 0 = [1, 2, 3, 4]" using r0 unfolding gc by (simp add: upt_rec)
  from first[rule_format, of 0] obtain g1 where
    g1: "games b 1 = Some g1" "teams g1 = [Team ''a'' ''b'', Bye]" "started g1" "finished g1"
    unfolding gc r l by3 by (auto simp add: fill_order_def)
  from first[rule_format, of 1] obtain g2 where
    g2: "games b 2 = Some g2" "teams g2 = [Team ''e'' ''f'', Bye]" "started g2" "finished g2"
    unfolding gc r l by3 by (auto simp add: fill_order_def)
  from first[rule_format, of 2] obtain g3 where
    g3: "games b 3 = Some g3" "teams g3 = [Team ''g'' ''h'', Team ''i'' ''j'']" "\<not> started g3"
      "\<not> finished g3"
    unfolding gc r l by3 by (auto simp add: fill_order_def)
  from first[rule_format, of 3] obtain g4 where
    g4: "games b 4 = Some g4" "teams g4 = [Team ''c'' ''d'', Bye]" "started g4" "finished g4"
    unfolding gc r l by3 by (auto simp add: fill_order_def)
  define d where "d = (new_driver b)\<lparr>rooms := rooms (new_driver b) @
        [\<lparr>room_game = 3, table = seat_table (teams g3)\<rparr>],
      emitted := emitted (new_driver b) @
        [SummonTable (round g3) \<lparr>room_game = 3, table = seat_table (teams g3)\<rparr>]\<rparr>"
  have "games (new_driver b) 3 = Some g3" using g3(1) by simp
  moreover have "bye g3 = None" unfolding bye_def g3(2) by simp
  moreover have "2 \<le> length (teams g3)" unfolding g3(2) by simp
  ultimately have "start (\<lambda>u. False) (Suc 0) (new_driver b) 3 = Some (Inr d)"
    unfolding d_def by (rule start_room)
  then have re: "reachable (\<lambda>u. False) (new_driver b) d"
    by (rule reachable.started[OF reachable.initial])
  have rooms: "map room_game (rooms d) = [3]" unfolding d_def by simp
  have n1: "1 \<notin> room_game ` set (rooms d)" using noroom re g1(1) g1(3) by blast
  have n2: "2 \<notin> room_game ` set (rooms d)" using noroom re g2(1) g2(3) by blast
  have n4: "4 \<notin> room_game ` set (rooms d)" using noroom re g4(1) g4(3) by blast
  have "game_count_loop 5 2 = Some 4" using gl unfolding l gc .
  with cb by3 r g1 g2 g3 g4 re rooms n1 n2 n4 show ?thesis
    by - (rule exI[of _ b], rule exI[of _ g1], rule exI[of _ g2], rule exI[of _ g3],
      rule exI[of _ g4], rule exI[of _ d], simp)
qed

lemma pickTeams_stages:
  "pickTeams host choosePartner shuffled nextBotName rnd =
     (case bot_fill host nextBotName (new_Set (map fst (new_Map shuffled))) of
        None \<Rightarrow> None
      | Some rejects1 \<Rightarrow>
          Some (case matched choosePartner (new_Map shuffled) rejects1 of
                  (rejects2, teams1) \<Rightarrow>
               (case drop_one rnd rejects2 of
                  Inl e \<Rightarrow> Inl e
                | Inr (dropped, rejects3) \<Rightarrow>
                    if length rejects3 mod 2 \<noteq> 0 then Inl AssertionError
                    else (case pair_loop rejects3 teams1 of
                            Inl e \<Rightarrow> Inl e
                          | Inr tms \<Rightarrow> Inr (tms, dropped)))))"
  unfolding pickTeams_def bot_fill_def matched_def drop_one_def Let_def by (rule refl)

lemma pickTeams_cases:
  assumes "pickTeams host choosePartner shuffled nextBotName rnd = Some (Inr (tms, dropped))"
  obtains rejects1 rejects2 teams1 rejects3 where
    "bot_fill host nextBotName (new_Set (map fst (new_Map shuffled))) = Some rejects1"
    "matched choosePartner (new_Map shuffled) rejects1 = (rejects2, teams1)"
    "drop_one rnd rejects2 = Inr (dropped, rejects3)"
    "even (length rejects3)"
    "pair_loop rejects3 teams1 = Inr tms"
proof (cases "bot_fill host nextBotName (new_Set (map fst (new_Map shuffled)))")
  case None
  with assms show ?thesis by (simp add: pickTeams_stages)
next
  case s: (Some rejects1)
  obtain rejects2 teams1 where m: "matched choosePartner (new_Map shuffled) rejects1 = (rejects2, teams1)"
    by (cases "matched choosePartner (new_Map shuffled) rejects1")
  show ?thesis
  proof (cases "drop_one rnd rejects2")
    case l: (Inl e)
    from assms show ?thesis by (simp add: pickTeams_stages s m l)
  next
    case i: (Inr x)
    obtain dr rejects3 where x: "x = (dr, rejects3)" by (cases x)
    show ?thesis
    proof (cases "length rejects3 mod 2 \<noteq> 0")
      case True
      with assms show ?thesis by (simp add: pickTeams_stages s m i x)
    next
      case False
      then have ev: "even (length rejects3)" by presburger
      show ?thesis
      proof (cases "pair_loop rejects3 teams1")
        case l: (Inl e)
        with False assms show ?thesis by (simp add: pickTeams_stages s m i x)
      next
        case r: (Inr r)
        with False assms have "r = tms" "dr = dropped"
          by (simp_all add: pickTeams_stages s m i x)
        with s m i x ev r that show ?thesis by simp
      qed
    qed
  qed
qed

lemma match_partners_no_Bye:
  "match_partners signups es (rejects, tms) = (rejects', tms') \<Longrightarrow> Bye \<notin> set tms \<Longrightarrow>
   Bye \<notin> set tms'"
proof (induction es arbitrary: rejects tms)
  case Nil
  then show ?case by simp
next
  case (Cons e es)
  obtain user partner where e: "e = (user, partner)" by (cases e)
  show ?case
  proof (cases "user \<in> set rejects \<and> (\<exists>p. partner = Some p \<and> p \<noteq> [] \<and> p \<in> set rejects \<and>
      map_of signups p = Some (Some user))")
    case True
    then obtain p where p: "partner = Some p" "p \<noteq> []" "p \<in> set rejects"
      "map_of signups p = Some (Some user)" and u: "user \<in> set rejects" by blast
    from Cons.prems(1) have "match_partners signups es
        (set_delete (set_delete rejects user) p, tms @ [Team user p]) = (rejects', tms')"
      unfolding e using p u by simp
    moreover have "Bye \<notin> set (tms @ [Team user p])" using Cons.prems(2) by simp
    ultimately show ?thesis by (rule Cons.IH)
  next
    case False
    have "match_partners signups (e # es) (rejects, tms) = match_partners signups es (rejects, tms)"
      unfolding e using False by (cases partner) auto
    with Cons.prems(1) have "match_partners signups es (rejects, tms) = (rejects', tms')" by simp
    then show ?thesis using Cons.prems(2) by (rule Cons.IH)
  qed
qed

lemma pair_loop_Nil: "pair_loop [] tms = Inr tms"
  by (subst pair_loop.simps) simp

lemma pair_loop_single: "pair_loop [a] tms = Inl AssertionError"
  by (subst pair_loop.simps) (simp add: pop_def truthy_def)

lemma pair_loop_snoc2:
  "pair_loop (xs @ [b, a]) tms =
     (if a = [] \<or> b = [] then Inl AssertionError else pair_loop xs (tms @ [Team a b]))"
proof -
  have p1: "pop (xs @ [b, a]) = (Some a, xs @ [b])"
    unfolding pop_def by (simp add: butlast_append)
  have p2: "pop (xs @ [b]) = (Some b, xs)" unfolding pop_def by simp
  show ?thesis
    by (subst pair_loop.simps) (simp add: p1 p2 truthy_def)
qed

lemma pair_loop_closed:
  "pair_loop left tms =
     (if even (length left) \<and> [] \<notin> set left then Inr (tms @ pairs_of (rev left))
      else Inl AssertionError)"
proof (induction "length left" arbitrary: left tms rule: less_induct)
  case less
  show ?case
  proof (cases "length left < 2")
    case True
    then consider "left = []" | a where "left = [a]"
      by (cases left; cases "tl left") auto
    then show ?thesis
    proof cases
      case 1
      then show ?thesis by (simp add: pair_loop_Nil)
    next
      case 2
      then show ?thesis by (simp add: pair_loop_single)
    qed
  next
    case False
    then have "2 \<le> length (rev left)" by simp
    then obtain a b ys where r: "rev left = a # b # ys"
      by (cases "rev left"; cases "tl (rev left)") auto
    have "rev (rev left) = rev (a # b # ys)" unfolding r ..
    then have "left = rev ys @ [b, a]" by simp
    then obtain xs where l: "left = xs @ [b, a]" ..
    have "length xs < length left" unfolding l by simp
    from less[OF this, of "tms @ [Team a b]"]
    show ?thesis unfolding l pair_loop_snoc2 by auto
  qed
qed

lemma pairs_of_no_Bye: "Bye \<notin> set (pairs_of xs)"
  by (induction xs rule: pairs_of.induct) auto

lemma pair_loop_no_Bye:
  assumes "pair_loop left tms = Inr r" "Bye \<notin> set tms"
  shows "Bye \<notin> set r"
proof -
  from assms(1) have "r = tms @ pairs_of (rev left)"
    unfolding pair_loop_closed by (simp split: if_splits)
  with assms(2) pairs_of_no_Bye show ?thesis by simp
qed

lemma pickTeams_no_Bye:
  assumes "pickTeams host choosePartner shuffled nextBotName rnd = Some (Inr (tms, dropped))"
  shows "Bye \<notin> set tms"
proof -
  from assms obtain rejects1 rejects2 teams1 rejects3 where
    m: "matched choosePartner (new_Map shuffled) rejects1 = (rejects2, teams1)"
    and p: "pair_loop rejects3 teams1 = Inr tms" by (rule pickTeams_cases)
  have "Bye \<notin> set teams1"
  proof (cases choosePartner)
    case True
    with m have "match_partners (new_Map shuffled) (new_Map shuffled) (rejects1, []) = (rejects2, teams1)"
      by (simp add: matched_def)
    then show ?thesis by (rule match_partners_no_Bye) simp
  next
    case False
    with m show ?thesis by (auto simp: matched_def)
  qed
  with p show ?thesis by (rule pair_loop_no_Bye)
qed

lemma frame_refl: "frame_kept d d"
  unfolding frame_kept_def by simp

lemma push_keeps_frame:
  assumes f: "frame_kept d0 d"
    and g: "games d' = upd_game (games d) nxt (\<lambda>x. x\<lparr>teams := teams x @ [t]\<rparr>)"
  shows "frame_kept d0 d'"
  unfolding frame_kept_def
proof (intro conjI allI impI)
  fix j assume "games d' j = None"
  then have "games d j = None" unfolding g upd_game_apply by (simp split: if_splits)
  with f show "games d0 j = None" unfolding frame_kept_def by blast
next
  fix j g' assume a: "games d' j = Some g'"
  show "\<exists>g0. games d0 j = Some g0 \<and> g' = g0\<lparr>teams := teams g'\<rparr>"
  proof (cases "j = nxt")
    case True
    with a obtain x where x: "games d j = Some x" "g' = x\<lparr>teams := teams x @ [t]\<rparr>"
      unfolding g upd_game_apply by auto
    from f x(1) obtain g0 where g0: "games d0 j = Some g0" "x = g0\<lparr>teams := teams x\<rparr>"
      unfolding frame_kept_def by blast
    have "g' = g0\<lparr>teams := teams g'\<rparr>" unfolding x(2) by (subst g0(2)) simp
    with g0(1) show ?thesis by blast
  next
    case False
    with a have "games d j = Some g'" unfolding g upd_game_apply by simp
    with f show ?thesis unfolding frame_kept_def by blast
  qed
qed

lemma same_games_frame:
  assumes "frame_kept d0 d" "games d' = games d"
  shows "frame_kept d0 d'"
  using assms unfolding frame_kept_def by simp

lemma start_keeps_frame:
  "frame_kept d0 d \<Longrightarrow> start isBot fuel d gid = Some (Inr d') \<Longrightarrow> frame_kept d0 d'"
proof (induction fuel arbitrary: d gid)
  case 0
  then show ?case by simp
next
  case (Suc fuel)
  from Suc.prems(2) show ?case
  proof (cases rule: start_cases)
    case (advance this t nxt)
    have "frame_kept d0 (d\<lparr>emitted := emitted d @ map (AnnounceBye (round this)) (filter (\<lambda>u. \<not> isBot u) (users t)),
            games := upd_game (games d) nxt (\<lambda>x. x\<lparr>teams := teams x @ [t]\<rparr>)\<rparr>)"
      by (rule push_keeps_frame[OF Suc.prems(1)]) simp
    from Suc.IH[OF this advance(4)] show ?thesis .
  next
    case (wait this)
    with Suc.prems(1) show ?thesis by simp
  next
    case (room this)
    show ?thesis unfolding room(4) by (rule same_games_frame[OF Suc.prems(1)]) simp
  qed
qed

lemma game_over_keeps_frame:
  assumes "frame_kept d0 d" "game_over isBot fuel d i (a, b) = Some (Inr d')"
  shows "frame_kept d0 d'"
  using assms(2)
proof (cases rule: game_over_cases)
  case deaf
  with assms(1) show ?thesis by simp
next
  case (final rm ua ub this)
  show ?thesis unfolding final(3) by (rule same_games_frame[OF assms(1)]) simp
next
  case (advance rm ua ub this nxt)
  have "frame_kept d0 (d\<lparr>over_done := i # over_done d,
              games := upd_game (games d) nxt (\<lambda>x. x\<lparr>teams := teams x @ [Team ua ub]\<rparr>)\<rparr>)"
    by (rule push_keeps_frame[OF assms(1)]) simp
  from start_keeps_frame[OF this advance(3)] show ?thesis .
qed

lemma reachable_frame:
  assumes "reachable isBot d0 d"
  shows "frame_kept d0 d"
  using assms
proof (induction rule: reachable.induct)
  case initial
  show ?case by (rule frame_refl)
next
  case (started d fuel gid d')
  then show ?case using start_keeps_frame by blast
next
  case (over d fuel i a b d')
  then show ?case using game_over_keeps_frame by blast
qed

lemma TournamentDriver_cases:
  assumes "TournamentDriver host choosePartner shuffled nextBotName rnd = Some (Inr (tms, dropped, d0))"
  obtains b where "pickTeams host choosePartner shuffled nextBotName rnd = Some (Inr (tms, dropped))"
    "createBracket tms = Some (Inr b)" "d0 = new_driver b"
proof (cases "pickTeams host choosePartner shuffled nextBotName rnd")
  case None
  with assms show ?thesis by (simp add: TournamentDriver_def)
next
  case s: (Some r)
  show ?thesis
  proof (cases r)
    case (Inl e)
    with assms s show ?thesis by (simp add: TournamentDriver_def)
  next
    case i: (Inr x)
    obtain t dr where x: "x = (t, dr)" by (cases x)
    show ?thesis
    proof (cases "createBracket t")
      case None
      with assms s i x show ?thesis by (simp add: TournamentDriver_def)
    next
      case c: (Some r')
      show ?thesis
      proof (cases r')
        case (Inl e)
        with assms s i x c show ?thesis by (simp add: TournamentDriver_def)
      next
        case ib: (Inr b)
        with assms s i x c have "t = tms" "dr = dropped" "d0 = new_driver b"
          by (simp_all add: TournamentDriver_def)
        with s i x c ib that show ?thesis by simp
      qed
    qed
  qed
qed

lemma bye_teams:
  assumes "bye g = Some t" "teams g = [a, x]" "a \<noteq> Bye"
  shows "x = Bye \<and> t = a"
  using assms unfolding bye_def by (simp split: if_splits)

text \<open>
  Claim C9. In a driver that the constructor has built (\<open>pickTeams\<close>, then
  \<open>createBracket\<close>), after any calls of \<open>start\<close> and of \<open>gameOver\<close> handlers, for every
  game \<open>g\<close>: the team list holds no \<open>Bye\<close>; the number of byes is at least 0 and less
  than \<open>game_count\<close>; a game of round 1 holds exactly two teams, the first a team of
  the team list and not \<open>Bye\<close>; a game of round 2 or later holds no \<open>Bye\<close>; so no
  game holds \<open>Bye\<close> twice; and when the getter \<open>bye\<close> of a game yields a team, the
  team that \<open>start\<close> then pushes into the next game, the game is of round 1 with
  \<open>Bye\<close> in its second seat, and the team is its first seat, a real team.
\<close>

theorem bye_never_twice:
  assumes td: "TournamentDriver host choosePartner shuffled nextBotName rnd = Some (Inr (tms, dropped, d0))"
    and re: "reachable isBot d0 d" and g: "games d j = Some g"
  shows "Bye \<notin> set tms \<and>
     (\<exists>gc. game_count_loop (length tms) 2 = Some gc \<and> 0 \<le> initial_byes gc (length tms) \<and>
           initial_byes gc (length tms) < int gc) \<and>
     1 \<le> round g \<and>
     (round g = 1 \<longrightarrow> (\<exists>t x. teams g = [t, x] \<and> t \<in> set tms \<and> t \<noteq> Bye)) \<and>
     (2 \<le> round g \<longrightarrow> Bye \<notin> set (teams g)) \<and>
     count_list (teams g) Bye \<le> 1 \<and>
     (\<forall>t. bye g = Some t \<longrightarrow> t \<noteq> Bye \<and> t \<in> set tms \<and> round g = 1 \<and> teams g = [t, Bye])"
proof -
  from td obtain b where pt: "pickTeams host choosePartner shuffled nextBotName rnd = Some (Inr (tms, dropped))"
    and cb: "createBracket tms = Some (Inr b)" and d0: "d0 = new_driver b"
    by (rule TournamentDriver_cases)
  have nb: "Bye \<notin> set tms" using pt by (rule pickTeams_no_Bye)
  have inv0: "run_inv d0 d0" unfolding d0 by (rule createBracket_invs(1)[OF cb])
  have bye0: "bye_second_only d0" unfolding d0 by (rule createBracket_invs(2)[OF cb nb])
  have inv: "run_inv d0 d" by (rule reachable_inv[OF re inv0])
  have byes: "bye_second_only d" by (rule reachable_bye[OF re inv0 bye0])
  have fr: "frame_kept d0 d" by (rule reachable_frame[OF re])
  from fr g have "\<exists>g0. games d0 j = Some g0 \<and> g = g0\<lparr>teams := teams g\<rparr>"
    unfolding frame_kept_def by blast
  then obtain g0 where g0': "games d0 j = Some g0" and g0g: "g = g0\<lparr>teams := teams g\<rparr>" by blast
  from g0' have g0b: "games b j = Some g0" unfolding d0 by simp
  note g0 = g0b g0g
  have N: "4 \<le> length tms"
  proof (rule ccontr)
    assume "\<not> 4 \<le> length tms"
    with cb have "b = \<lparr>games = Map.empty, rounds = []\<rparr>" by (simp add: createBracket_def)
    with g0(1) show False by simp
  qed
  from createBracket_built[OF N] cb obtain k where k: "1 \<le> k"
    and lo: "2 ^ k < length tms" and hi: "length tms \<le> 2 ^ (k + 1)"
    and gc: "game_count_loop (length tms) 2 = Some (2 ^ k)"
    and bu: "built tms k (2 ^ (k + 1) - 1) b" by auto
  from final_dom[OF bu g0(1)] obtain q i where q: "q \<le> k" and i: "i < 2 ^ (k - q)"
    and ge: "g0 = later_game tms k (2 ^ (k + 1) - 1) q i" by blast
  have rg: "round g = q + 1"
    by (subst g0(2)) (simp add: ge later_game_def)
  have c1: "\<exists>gc. game_count_loop (length tms) 2 = Some gc \<and> 0 \<le> initial_byes gc (length tms) \<and>
           initial_byes gc (length tms) < int gc"
  proof -
    define G where "G = (2 ^ k :: nat)"
    have "length tms \<le> 2 * G" "G < length tms" using hi lo unfolding G_def by simp_all
    then have "0 \<le> initial_byes G (length tms) \<and> initial_byes G (length tms) < int G"
      unfolding initial_byes_def by simp
    with gc show ?thesis unfolding G_def by blast
  qed
  from byes g have sh: "(round g < 2 \<longrightarrow> (\<exists>t x. teams g = [t, x] \<and> t \<noteq> Bye)) \<and>
        (2 \<le> round g \<longrightarrow> Bye \<notin> set (teams g))"
    unfolding bye_second_only_def by blast
  have first: "\<exists>t x. teams g = [t, x] \<and> t \<in> set tms \<and> t \<noteq> Bye" if r1: "round g = 1"
  proof -
    from r1 rg have q0: "q = 0" by simp
    from inv have "round1_kept d0 d" unfolding run_inv_def by simp
    with g0(1) g have "g = g0" unfolding round1_kept_def d0 using q0 ge
      by (fastforce simp: later_game_def)
    then have t: "teams g = seated tms (2 ^ k) i" unfolding ge q0 by (simp add: later_game_def)
    have ev: "even ((2::nat) ^ k)" using k by simp
    from i q0 have "i < 2 ^ k" by simp
    from fill_order_less[OF ev this] lo have "fill_order (2 ^ k) i < length tms" by simp
    then have "tms ! fill_order (2 ^ k) i \<in> set tms" by simp
    with nb t show ?thesis unfolding seated_def Let_def by auto
  qed
  have cnt: "count_list (teams g) Bye \<le> 1"
  proof (cases "round g = 1")
    case True
    from first[OF this] show ?thesis by auto
  next
    case False
    with rg have "2 \<le> round g" by simp
    with sh have "Bye \<notin> set (teams g)" by simp
    then show ?thesis by (simp add: count_list_0_iff)
  qed
  have by1: "t \<noteq> Bye \<and> t \<in> set tms \<and> round g = 1 \<and> teams g = [t, Bye]" if bt: "bye g = Some t" for t
  proof (cases "round g = 1")
    case True
    from first[OF this] obtain a x where ax: "teams g = [a, x]" "a \<in> set tms" "a \<noteq> Bye" by blast
    from bye_teams[OF bt ax(1,3)] ax True show ?thesis by simp
  next
    case False
    with rg have "2 \<le> round g" by simp
    with sh have "Bye \<notin> set (teams g)" by simp
    from bye_no_Bye[OF this] bt show ?thesis by simp
  qed
  from nb c1 rg first sh cnt by1 show ?thesis by simp
qed

lemma bracket_of_five:
  assumes l: "length tms = 5" and cb: "createBracket tms = Some (Inr b)"
  shows "games b 1 = Some (later_game tms 2 7 0 0)"
    and "games b 2 = Some (later_game tms 2 7 0 1)"
    and "games b 3 = Some (later_game tms 2 7 0 2)"
    and "games b 4 = Some (later_game tms 2 7 0 3)"
    and "games b 5 = Some (later_game tms 2 7 1 0)"
    and "games b 6 = Some (later_game tms 2 7 1 1)"
    and "games b 7 = Some (later_game tms 2 7 2 0)"
proof -
  have "4 \<le> length tms" using l by simp
  from createBracket_built[OF this] cb obtain k where
    gc: "game_count_loop (length tms) 2 = Some (2 ^ k)"
    and bu: "built tms k (2 ^ (k + 1) - 1) b" by auto
  have "game_count_loop 5 2 = Some 4" by (simp add: game_count_loop.simps)
  with gc have "(2::nat) ^ k = 4" unfolding l by simp
  then have k2: "k = 2" by (rule pow2_eq_4)
  show "games b 1 = Some (later_game tms 2 7 0 0)"
    using final_game[OF bu, of 0 0] unfolding k2 by simp
  show "games b 2 = Some (later_game tms 2 7 0 1)"
    using final_game[OF bu, of 0 1] unfolding k2 by (simp add: eval_nat_numeral)
  show "games b 3 = Some (later_game tms 2 7 0 2)"
    using final_game[OF bu, of 0 2] unfolding k2 by (simp add: eval_nat_numeral)
  show "games b 4 = Some (later_game tms 2 7 0 3)"
    using final_game[OF bu, of 0 3] unfolding k2 by (simp add: eval_nat_numeral)
  show "games b 5 = Some (later_game tms 2 7 1 0)"
    using final_game[OF bu, of 1 0] unfolding k2 by (simp add: eval_nat_numeral)
  show "games b 6 = Some (later_game tms 2 7 1 1)"
    using final_game[OF bu, of 1 1] unfolding k2 by (simp add: eval_nat_numeral)
  show "games b 7 = Some (later_game tms 2 7 2 0)"
    using final_game[OF bu, of 2 0] unfolding k2 by (simp add: eval_nat_numeral)
qed

lemma start_advance:
  assumes "games d gid = Some this" "bye this = Some t" "next_game this = Some nxt"
  shows "start isBot (Suc n) d gid =
     start isBot n
       (d\<lparr>emitted := emitted d @ map (AnnounceBye (round this)) (filter (\<lambda>u. \<not> isBot u) (users t)),
          games := upd_game (games d) nxt (\<lambda>x. x\<lparr>teams := teams x @ [t]\<rparr>)\<rparr>) nxt"
  unfolding start.simps assms(1) option.case assms(2) assms(3) Let_def by simp

lemma ten_signups:
  "pickTeams ''ann'' False
     [(''a'', None), (''b'', None), (''c'', None), (''d'', None), (''e'', None),
      (''f'', None), (''g'', None), (''h'', None), (''i'', None), (''j'', None)] (\<lambda>i. []) 0 =
   Some (Inr ([Team ''j'' ''i'', Team ''h'' ''g'', Team ''f'' ''e'', Team ''d'' ''c'',
               Team ''b'' ''a''], None))"
  by (simp add: pickTeams_stages bot_fill_def matched_def drop_one_def new_Map_def map_set_def
      new_Set_def set_add_def pair_loop_closed)

text \<open>C9 on ten signups, paired into five teams: game 1 holds the first team and \<open>Bye\<close>;
  starting it pushes that team, not \<open>Bye\<close>, into game 5 of round 2.\<close>

theorem bye_never_twice_witness:
  "\<exists>tms d0 d g1 g5.
     TournamentDriver ''ann'' False
       [(''a'', None), (''b'', None), (''c'', None), (''d'', None), (''e'', None),
        (''f'', None), (''g'', None), (''h'', None), (''i'', None), (''j'', None)] (\<lambda>i. []) 0 =
       Some (Inr (tms, None, d0)) \<and>
     tms = [Team ''j'' ''i'', Team ''h'' ''g'', Team ''f'' ''e'', Team ''d'' ''c'', Team ''b'' ''a''] \<and>
     start (\<lambda>u. False) 2 d0 1 = Some (Inr d) \<and> reachable (\<lambda>u. False) d0 d \<and>
     games d 1 = Some g1 \<and> round g1 = 1 \<and> teams g1 = [Team ''j'' ''i'', Bye] \<and>
     bye g1 = Some (Team ''j'' ''i'') \<and> count_list (teams g1) Bye \<le> 1 \<and>
     games d 5 = Some g5 \<and> round g5 = 2 \<and> teams g5 = [Team ''j'' ''i''] \<and>
     Bye \<notin> set (teams g5)"
proof -
  let ?S = "[(''a'', None), (''b'', None), (''c'', None), (''d'', None), (''e'', None),
        (''f'', None), (''g'', None), (''h'', None), (''i'', None), (''j'', None)]"
  let ?T = "[Team ''j'' ''i'', Team ''h'' ''g'', Team ''f'' ''e'', Team ''d'' ''c'', Team ''b'' ''a'']"
  have l: "length ?T = 5" by simp
  have "4 \<le> length ?T" by simp
  from createBracket_built[OF this] obtain b where cb: "createBracket ?T = Some (Inr b)" by blast
  note gs = bracket_of_five[OF l cb]
  define d0 where "d0 = new_driver b"
  have td: "TournamentDriver ''ann'' False ?S (\<lambda>i. []) 0 = Some (Inr (?T, None, d0))"
    unfolding TournamentDriver_def ten_signups d0_def by (simp add: cb)
  define g1 where "g1 = later_game ?T 2 7 0 0"
  define g5 where "g5 = (later_game ?T 2 7 1 0)\<lparr>teams := [Team ''j'' ''i'']\<rparr>"
  define d where "d = d0\<lparr>emitted := emitted d0 @
        map (AnnounceBye (round g1)) (filter (\<lambda>u. \<not> False) (users (Team ''j'' ''i''))),
      games := upd_game (games d0) 5 (\<lambda>x. x\<lparr>teams := teams x @ [Team ''j'' ''i'']\<rparr>)\<rparr>"
  have t1: "teams g1 = [Team ''j'' ''i'', Bye]"
    unfolding g1_def by (simp add: later_game_def seated_def fill_order_def Let_def)
  have b1: "bye g1 = Some (Team ''j'' ''i'')" unfolding bye_def t1 by simp
  have n1: "next_game g1 = Some 5"
    unfolding g1_def by (simp add: later_game_def eval_nat_numeral)
  have r1: "round g1 = 1" unfolding g1_def by (simp add: later_game_def)
  have d01: "games d0 1 = Some g1" unfolding d0_def g1_def using gs(1) by simp
  have d5: "games d 5 = Some g5"
    unfolding d_def g5_def d0_def upd_game_apply using gs(5) by (simp add: later_game_def)
  have d1: "games d 1 = Some g1"
    unfolding d_def upd_game_apply using d01 by simp
  have t5: "teams g5 = [Team ''j'' ''i'']" unfolding g5_def by simp
  have r5: "round g5 = 2" unfolding g5_def by (simp add: later_game_def)
  have b5: "bye g5 = None" unfolding bye_def t5 by simp
  have "start (\<lambda>u. False) (Suc (Suc 0)) d0 1 = start (\<lambda>u. False) (Suc 0) d 5"
    unfolding d_def by (rule start_advance[OF d01 b1 n1])
  also have "\<dots> = Some (Inr d)"
    by (rule start_wait[OF d5 b5]) (simp add: t5)
  finally have st: "start (\<lambda>u. False) 2 d0 1 = Some (Inr d)" by (simp add: numeral_2_eq_2)
  then have re: "reachable (\<lambda>u. False) d0 d" by (rule reachable.started[OF reachable.initial])
  from bye_never_twice[OF td re d1] have c1: "count_list (teams g1) Bye \<le> 1" by simp
  from bye_never_twice[OF td re d5] r5 have c5: "Bye \<notin> set (teams g5)" by simp
  from td st re d1 r1 t1 b1 c1 d5 r5 t5 c5 show ?thesis
    by - (rule exI[of _ ?T], rule exI[of _ d0], rule exI[of _ d], rule exI[of _ g1],
      rule exI[of _ g5], simp)
qed

section \<open>Lemmas on pickTeams\<close>

lemma max_loop_terminates:
  "0 < m \<Longrightarrow> \<exists>mx. max_loop c m = Some mx \<and> c \<le> mx"
proof (induction "c - m" arbitrary: m rule: less_induct)
  case less
  show ?case
  proof (cases "c > m")
    case False
    then have "max_loop c m = Some m" by (subst max_loop.simps) simp
    with False show ?thesis by simp
  next
    case True
    with less.prems have "c - m * 2 < c - m" by arith
    from less.hyps[OF this] less.prems obtain mx where
      mx: "max_loop c (m * 2) = Some mx" "c \<le> mx" by auto
    have "max_loop c m = max_loop c (m * 2)" using True by (subst max_loop.simps) simp
    with mx show ?thesis by simp
  qed
qed

lemma max_loop_small: "c \<le> m \<Longrightarrow> max_loop c m = Some m"
  by (subst max_loop.simps) simp

lemma set_add_set [simp]: "set (set_add s x) = insert x (set s)"
  by (auto simp: set_add_def)

lemma set_add_distinct [simp]: "distinct s \<Longrightarrow> distinct (set_add s x)"
  by (simp add: set_add_def)

lemma foldl_set_add:
  "distinct s \<Longrightarrow> distinct (foldl set_add s xs) \<and> set (foldl set_add s xs) = set s \<union> set xs"
  by (induction xs arbitrary: s) auto

lemma new_Set_distinct [simp]: "distinct (new_Set xs)"
  using foldl_set_add[of "[]" xs] by (simp add: new_Set_def)

lemma new_Set_set [simp]: "set (new_Set xs) = set xs"
  using foldl_set_add[of "[]" xs] by (simp add: new_Set_def)

lemma foldl_set_add_fresh:
  "distinct (s @ xs) \<Longrightarrow> foldl set_add s xs = s @ xs"
  by (induction xs arbitrary: s) (auto simp: set_add_def)

lemma new_Set_id: "distinct xs \<Longrightarrow> new_Set xs = xs"
  using foldl_set_add_fresh[of "[]" xs] by (simp add: new_Set_def)

lemma fold_set_add_bots:
  "distinct s \<Longrightarrow>
   distinct (fold (\<lambda>i r. set_add r (f i)) is s) \<and>
   set (fold (\<lambda>i r. set_add r (f i)) is s) = set s \<union> f ` set is"
  by (induction "is" arbitrary: s) auto

lemma foldl_map_set:
  "distinct (map fst m) \<Longrightarrow>
   distinct (map fst (foldl (\<lambda>m (k, v). map_set m k v) m es)) \<and>
   fst ` set (foldl (\<lambda>m (k, v). map_set m k v) m es) = fst ` set m \<union> fst ` set es"
proof (induction es arbitrary: m)
  case Nil
  then show ?case by simp
next
  case (Cons e es)
  obtain k v where e: "e = (k, v)" by (cases e)
  have d: "distinct (map fst (map_set m k v))"
    unfolding map_set_def using Cons.prems by (simp add: distinct_update)
  have s: "fst ` set (map_set m k v) = insert k (fst ` set m)"
    unfolding map_set_def by (simp add: dom_update)
  from Cons.IH[OF d] show ?case unfolding e s by auto
qed

lemma new_Map_keys [simp]:
  "distinct (map fst (new_Map es))" "fst ` set (new_Map es) = fst ` set es"
  using foldl_map_set[of "[]" es] by (simp_all add: new_Map_def)

lemma update_fresh: "k \<notin> fst ` set m \<Longrightarrow> AList.update k v m = m @ [(k, v)]"
  by (induction m) auto

lemma foldl_map_set_fresh:
  "distinct (map fst (m @ es)) \<Longrightarrow> foldl (\<lambda>m (k, v). map_set m k v) m es = m @ es"
proof (induction es arbitrary: m)
  case Nil
  then show ?case by simp
next
  case (Cons e es)
  obtain k v where e: "e = (k, v)" by (cases e)
  from Cons.prems have "k \<notin> fst ` set m" unfolding e by auto
  then have u: "map_set m k v = m @ [(k, v)]" unfolding map_set_def by (rule update_fresh)
  from Cons.prems have "distinct (map fst ((m @ [(k, v)]) @ es))" unfolding e by simp
  from Cons.IH[OF this] show ?case unfolding e by (simp add: u)
qed

lemma new_Map_id: "distinct (map fst es) \<Longrightarrow> new_Map es = es"
  using foldl_map_set_fresh[of "[]" es] by (simp add: new_Map_def)

lemma bot_fill_total:
  "\<exists>rejects1. bot_fill host nextBotName rejects0 = Some rejects1"
proof (cases "host = ''bots''")
  case True
  from max_loop_terminates[of 8 "length rejects0"] obtain mx where
    "max_loop (length rejects0) 8 = Some mx" by auto
  with True show ?thesis by (simp add: bot_fill_def)
next
  case False
  then show ?thesis by (simp add: bot_fill_def)
qed

lemma bot_fill_pool:
  assumes "bot_fill host nextBotName rejects0 = Some rejects1" "distinct rejects0"
  shows "distinct rejects1" "set rejects0 \<subseteq> set rejects1"
    "host \<noteq> ''bots'' \<Longrightarrow> rejects1 = rejects0"
    "\<forall>u\<in>set rejects1 - set rejects0. \<exists>i. u = '':bot:'' @ nextBotName i"
proof -
  show "host \<noteq> ''bots'' \<Longrightarrow> rejects1 = rejects0" using assms(1) by (simp add: bot_fill_def)
  have "distinct rejects1 \<and> set rejects0 \<subseteq> set rejects1 \<and>
     (\<forall>u\<in>set rejects1 - set rejects0. \<exists>i. u = '':bot:'' @ nextBotName i)"
  proof (cases "host = ''bots''")
    case False
    with assms show ?thesis by (simp add: bot_fill_def)
  next
    case True
    with assms(1) obtain mx where
      r: "rejects1 = fold (\<lambda>i r. set_add r ('':bot:'' @ nextBotName i)) [0..<mx - length rejects0] rejects0"
      by (auto simp: bot_fill_def split: option.splits)
    from fold_set_add_bots[OF assms(2), of "\<lambda>i. '':bot:'' @ nextBotName i" "[0..<mx - length rejects0]"]
    show ?thesis unfolding r by auto
  qed
  then show "distinct rejects1" "set rejects0 \<subseteq> set rejects1"
    "\<forall>u\<in>set rejects1 - set rejects0. \<exists>i. u = '':bot:'' @ nextBotName i" by simp_all
qed

lemma match_partners_Cons:
  "match_partners signups ((user, partner) # rest) (rejects, tms) =
     (if mutual signups rejects (user, partner)
      then match_partners signups rest
             (set_delete (set_delete rejects user) (the partner), tms @ [Team user (the partner)])
      else match_partners signups rest (rejects, tms))"
  by (cases partner) (simp_all add: mutual_def)

lemma set_delete_set [simp]: "set (set_delete s x) = set s - {x}"
  by (simp add: set_delete_def)

lemma set_delete_distinct [simp]: "distinct s \<Longrightarrow> distinct (set_delete s x)"
  by (simp add: set_delete_def distinct_removeAll)

lemma set_delete_mset:
  "distinct s \<Longrightarrow> x \<in> set s \<Longrightarrow> mset s = mset (set_delete s x) + {#x#}"
  by (simp add: set_delete_def distinct_remove1_removeAll[symmetric])

lemma set_delete_length:
  "distinct s \<Longrightarrow> x \<in> set s \<Longrightarrow> length s = Suc (length (set_delete s x))"
proof -
  assume "distinct s" "x \<in> set s"
  then have "mset s = mset (set_delete s x) + {#x#}" by (rule set_delete_mset)
  then have "size (mset s) = size (mset (set_delete s x) + {#x#})" by simp
  then show ?thesis by simp
qed

lemma match_partners_pile:
  assumes "match_partners signups es (rejects, tms) = (rejects', tms')"
  shows "set rejects' \<subseteq> set rejects \<and> (distinct rejects \<longrightarrow> distinct rejects')"
  using assms
proof (induction es arbitrary: rejects tms)
  case Nil
  then show ?case by simp
next
  case (Cons e es)
  obtain user partner where e: "e = (user, partner)" by (cases e)
  show ?case
  proof (cases "mutual signups rejects (user, partner)")
    case True
    with Cons.prems have "match_partners signups es
        (set_delete (set_delete rejects user) (the partner), tms @ [Team user (the partner)])
         = (rejects', tms')" unfolding e match_partners_Cons by simp
    from Cons.IH[OF this] show ?thesis by auto
  next
    case False
    with Cons.prems have "match_partners signups es (rejects, tms) = (rejects', tms')"
      unfolding e match_partners_Cons by simp
    from Cons.IH[OF this] show ?thesis .
  qed
qed

lemma match_partners_mset:
  assumes "match_partners signups es (rejects, tms) = (rejects', tms')"
    and "distinct rejects" and "\<forall>e\<in>set es. snd e \<noteq> Some (fst e)"
  shows "\<exists>new. tms' = tms @ new \<and>
           mset rejects = mset rejects' + mset (concat (map users new))"
  using assms
proof (induction es arbitrary: rejects tms)
  case Nil
  then show ?case by simp
next
  case (Cons e es)
  obtain user partner where e: "e = (user, partner)" by (cases e)
  from Cons.prems(3) have rest: "\<forall>e\<in>set es. snd e \<noteq> Some (fst e)" by simp
  show ?case
  proof (cases "mutual signups rejects (user, partner)")
    case True
    then obtain p where p: "partner = Some p" "p \<in> set rejects" and u: "user \<in> set rejects"
      unfolding mutual_def by (auto split: option.splits)
    from Cons.prems(3) p(1) have ne: "p \<noteq> user" unfolding e by auto
    let ?r = "set_delete (set_delete rejects user) p"
    from True Cons.prems(1) have m: "match_partners signups es (?r, tms @ [Team user p]) = (rejects', tms')"
      unfolding e match_partners_Cons p(1) by simp
    have d: "distinct ?r" using Cons.prems(2) by simp
    from Cons.IH[OF m d rest] obtain new where
      new: "tms' = (tms @ [Team user p]) @ new" "mset ?r = mset rejects' + mset (concat (map users new))"
      by blast
    have "mset rejects = mset (set_delete rejects user) + {#user#}"
      by (rule set_delete_mset[OF Cons.prems(2) u])
    also have "mset (set_delete rejects user) = mset ?r + {#p#}"
      by (rule set_delete_mset) (use Cons.prems(2) p(2) ne in simp_all)
    finally have "mset rejects = mset rejects' + mset (concat (map users (Team user p # new)))"
      unfolding new(2) by simp
    with new(1) show ?thesis by (intro exI[of _ "Team user p # new"]) simp
  next
    case False
    with Cons.prems(1) have "match_partners signups es (rejects, tms) = (rejects', tms')"
      unfolding e match_partners_Cons by simp
    from Cons.IH[OF this Cons.prems(2) rest] show ?thesis .
  qed
qed

lemma drop_one_mset:
  assumes "drop_one rnd rejects2 = Inr (dropped, rejects3)" "distinct rejects2"
  shows "distinct rejects3" "mset rejects2 = mset rejects3 + mset_dropped dropped"
proof -
  have "distinct rejects3 \<and> mset rejects2 = mset rejects3 + mset_dropped dropped"
  proof (cases "length rejects2 mod 2 \<noteq> 0")
    case False
    with assms show ?thesis by (simp add: drop_one_def mset_dropped_def)
  next
    case True
    then have ne: "rejects2 \<noteq> []" by auto
    let ?u = "rejects2 ! (rnd mod length rejects2)"
    have s: "sample rnd rejects2 = Some ?u" using ne by (simp add: sample_def)
    have m: "?u \<in> set rejects2" using ne by simp
    from assms(1) True have "dropped = Some ?u" "rejects3 = set_delete rejects2 ?u"
      unfolding drop_one_def s by (simp_all split: if_splits)
    with set_delete_mset[OF assms(2) m] assms(2) show ?thesis
      by (simp add: mset_dropped_def)
  qed
  then show "distinct rejects3" "mset rejects2 = mset rejects3 + mset_dropped dropped"
    by simp_all
qed

lemma drop_one_total:
  assumes "distinct rejects2" "[] \<notin> set rejects2"
  shows "\<exists>dropped rejects3. drop_one rnd rejects2 = Inr (dropped, rejects3) \<and>
           even (length rejects3) \<and> set rejects3 \<subseteq> set rejects2 \<and>
           (odd (length rejects2) \<longrightarrow> truthy (sample rnd rejects2) \<and> dropped = sample rnd rejects2) \<and>
           (even (length rejects2) \<longrightarrow> dropped = None \<and> rejects3 = rejects2)"
proof (cases "length rejects2 mod 2 \<noteq> 0")
  case False
  then have "even (length rejects2)" by presburger
  with False show ?thesis by (simp add: drop_one_def)
next
  case True
  then have odd: "odd (length rejects2)" by presburger
  then have ne: "rejects2 \<noteq> []" by auto
  let ?u = "rejects2 ! (rnd mod length rejects2)"
  have s: "sample rnd rejects2 = Some ?u" using ne by (simp add: sample_def)
  have m: "?u \<in> set rejects2" using ne by simp
  with assms(2) have "?u \<noteq> []" by metis
  then have t: "truthy (sample rnd rejects2)" unfolding s truthy_def by simp
  have d: "drop_one rnd rejects2 = Inr (Some ?u, set_delete rejects2 ?u)"
    using True t unfolding drop_one_def by (simp add: s)
  define n where "n = length (set_delete rejects2 ?u)"
  have "length rejects2 = Suc n" unfolding n_def by (rule set_delete_length[OF assms(1) m])
  with odd have "even n" by simp
  then have ev: "even (length (set_delete rejects2 ?u))" unfolding n_def .
  have sub: "set (set_delete rejects2 ?u) \<subseteq> set rejects2" by auto
  show ?thesis
    apply (rule exI[of _ "Some ?u"])
    apply (rule exI[of _ "set_delete rejects2 ?u"])
    using d t odd s ev sub by simp
qed

lemma matched_pile:
  assumes "matched choosePartner signups rejects1 = (rejects2, teams1)"
  shows "set rejects2 \<subseteq> set rejects1" "distinct rejects1 \<Longrightarrow> distinct rejects2"
proof -
  have "set rejects2 \<subseteq> set rejects1 \<and> (distinct rejects1 \<longrightarrow> distinct rejects2)"
  proof (cases choosePartner)
    case True
    with assms have "match_partners signups signups (rejects1, []) = (rejects2, teams1)"
      by (simp add: matched_def)
    then show ?thesis by (rule match_partners_pile)
  next
    case False
    with assms show ?thesis by (simp add: matched_def)
  qed
  then show "set rejects2 \<subseteq> set rejects1" "distinct rejects1 \<Longrightarrow> distinct rejects2" by simp_all
qed

lemma pool_nonempty_ids:
  assumes "bot_fill host nextBotName (new_Set (map fst (new_Map shuffled))) = Some rejects1"
    and "\<forall>e\<in>set shuffled. fst e \<noteq> []"
  shows "[] \<notin> set rejects1"
proof
  assume a: "[] \<in> set rejects1"
  have d: "distinct (new_Set (map fst (new_Map shuffled)))" by simp
  have s: "set (new_Set (map fst (new_Map shuffled))) = fst ` set shuffled" by simp
  show False
  proof (cases "[] \<in> fst ` set shuffled")
    case True
    with assms(2) show False by auto
  next
    case False
    with a s have "[] \<in> set rejects1 - set (new_Set (map fst (new_Map shuffled)))" by simp
    with bot_fill_pool(4)[OF assms(1) d] obtain i where "[] = '':bot:'' @ nextBotName i" by blast
    then show False by simp
  qed
qed

text \<open>
  Claim C8. When every user id of the signups is a non-empty string, \<open>pickTeams\<close>
  returns teams and raises no assertion, whatever the host, the partner option, the
  shuffle, the bot names and the random number are: the loop that sizes the bot fill
  ends; when the reject pile is odd the sampled player is a non-empty string, so
  \<open>assert(dropped)\<close> passes; the pile that remains is even, so
  \<open>assert(rejects.size % 2 === 0)\<close> passes; every id left is non-empty, so both
  \<open>pop()\<close> of every pass of the last loop pass \<open>assert(a)\<close> and \<open>assert(b)\<close>, and the
  loop returns the teams.
\<close>

theorem pickTeams_asserts_pass:
  assumes "\<forall>e\<in>set shuffled. fst e \<noteq> []"
  shows "\<exists>rejects1 rejects2 teams1 dropped rejects3 tms.
     bot_fill host nextBotName (new_Set (map fst (new_Map shuffled))) = Some rejects1 \<and>
     matched choosePartner (new_Map shuffled) rejects1 = (rejects2, teams1) \<and>
     (odd (length rejects2) \<longrightarrow> truthy (sample rnd rejects2) \<and> dropped = sample rnd rejects2) \<and>
     drop_one rnd rejects2 = Inr (dropped, rejects3) \<and>
     even (length rejects3) \<and> (\<forall>u\<in>set rejects3. truthy (Some u)) \<and>
     pair_loop rejects3 teams1 = Inr tms \<and>
     pickTeams host choosePartner shuffled nextBotName rnd = Some (Inr (tms, dropped))"
proof -
  obtain rejects1 where
    b: "bot_fill host nextBotName (new_Set (map fst (new_Map shuffled))) = Some rejects1"
    using bot_fill_total by blast
  have d1: "distinct rejects1" by (rule bot_fill_pool(1)[OF b]) simp
  have n1: "[] \<notin> set rejects1" by (rule pool_nonempty_ids[OF b assms])
  obtain rejects2 teams1 where
    m: "matched choosePartner (new_Map shuffled) rejects1 = (rejects2, teams1)"
    by (cases "matched choosePartner (new_Map shuffled) rejects1")
  have d2: "distinct rejects2" by (rule matched_pile(2)[OF m d1])
  have n2: "[] \<notin> set rejects2" using matched_pile(1)[OF m] n1 by blast
  from drop_one_total[OF d2 n2, of rnd] obtain dropped rejects3 where
    dr: "drop_one rnd rejects2 = Inr (dropped, rejects3)" and ev: "even (length rejects3)"
    and sub: "set rejects3 \<subseteq> set rejects2"
    and od: "odd (length rejects2) \<longrightarrow> truthy (sample rnd rejects2) \<and> dropped = sample rnd rejects2"
    by blast
  have n3: "[] \<notin> set rejects3" using sub n2 by blast
  then have tr: "\<forall>u\<in>set rejects3. truthy (Some u)" unfolding truthy_def by auto
  have pl: "pair_loop rejects3 teams1 = Inr (teams1 @ pairs_of (rev rejects3))"
    unfolding pair_loop_closed using ev n3 by simp
  have pt: "pickTeams host choosePartner shuffled nextBotName rnd
      = Some (Inr (teams1 @ pairs_of (rev rejects3), dropped))"
    unfolding pickTeams_stages b option.case m prod.case dr sum.case pl using ev by simp
  from b m od dr ev tr pl pt show ?thesis by blast
qed

text \<open>C8 on five signups with partner choices: the pile is odd after the mutual pair, the
  sampled player is dropped, and the last two form a team.\<close>

theorem pickTeams_asserts_pass_witness:
  "\<exists>tms.
     pickTeams ''ann'' True
       [(''a'', Some ''b''), (''b'', Some ''a''), (''c'', None), (''d'', Some ''a''), (''e'', None)]
       (\<lambda>i. []) 8 = Some (Inr (tms, Some ''e'')) \<and>
     tms = [Team ''a'' ''b'', Team ''d'' ''c'']"
proof -
  let ?S = "[(''a'', Some ''b''), (''b'', Some ''a''), (''c'', None), (''d'', Some ''a''), (''e'', None)]"
  have h: "\<forall>e\<in>set ?S. fst e \<noteq> []" by simp
  have k: "distinct (map fst ?S)" by simp
  have nm: "new_Map ?S = ?S" by (rule new_Map_id[OF k])
  have ns: "new_Set (map fst ?S) = map fst ?S" by (rule new_Set_id[OF k])
  have bf: "bot_fill ''ann'' (\<lambda>i. []) (map fst ?S) = Some [''a'', ''b'', ''c'', ''d'', ''e'']"
    by (simp add: bot_fill_def)
  have ma: "matched True ?S [''a'', ''b'', ''c'', ''d'', ''e''] = ([''c'', ''d'', ''e''], [Team ''a'' ''b''])"
    by (simp add: matched_def set_delete_def)
  have dr: "drop_one 8 [''c'', ''d'', ''e''] = Inr (Some ''e'', [''c'', ''d''])"
    by (simp add: drop_one_def sample_def truthy_def set_delete_def)
  from pickTeams_asserts_pass[OF h, of "''ann''" "\<lambda>i. []" True 8]
  obtain tms dropped where
    "pickTeams ''ann'' True ?S (\<lambda>i. []) 8 = Some (Inr (tms, dropped))" by blast
  moreover have "pickTeams ''ann'' True ?S (\<lambda>i. []) 8 =
      Some (Inr ([Team ''a'' ''b'', Team ''d'' ''c''], Some ''e''))"
    unfolding pickTeams_stages nm ns bf option.case ma prod.case dr sum.case
    by (simp add: pair_loop_closed)
  ultimately show ?thesis by simp
qed

lemma update_entries: "set (AList.update k v m) \<subseteq> insert (k, v) (set m)"
  by (induction m) auto

lemma foldl_map_set_entries:
  "set (foldl (\<lambda>m (k, v). map_set m k v) m es) \<subseteq> set m \<union> set es"
proof (induction es arbitrary: m)
  case Nil
  show ?case by simp
next
  case (Cons e es)
  obtain k v where e: "e = (k, v)" by (cases e)
  have "set (map_set m k v) \<subseteq> insert (k, v) (set m)"
    unfolding map_set_def by (rule update_entries)
  with Cons[of "map_set m k v"] show ?case unfolding e by auto
qed

lemma new_Map_entries: "set (new_Map es) \<subseteq> set es"
  using foldl_map_set_entries[of "[]" es] by (simp add: new_Map_def)

lemma pairs_of_mset:
  "even (length xs) \<Longrightarrow> mset (concat (map users (pairs_of xs))) = mset xs"
  by (induction xs rule: pairs_of.induct) simp_all

lemma matched_mset:
  assumes "matched choosePartner signups rejects1 = (rejects2, teams1)" "distinct rejects1"
    and "\<forall>e\<in>set signups. snd e \<noteq> Some (fst e)"
  shows "mset rejects1 = mset rejects2 + mset (concat (map users teams1))"
proof (cases choosePartner)
  case True
  with assms(1) have "match_partners signups signups (rejects1, []) = (rejects2, teams1)"
    by (simp add: matched_def)
  from match_partners_mset[OF this assms(2,3)] show ?thesis by simp
next
  case False
  with assms(1) show ?thesis by (simp add: matched_def)
qed

text \<open>
  Claim C10. When no entry names its own user as partner and \<open>pickTeams\<close> returns, the
  teams and the dropped player partition the pool (the signed-up users, and the bots
  when the host is \<open>bots\<close>): the ids of all teams together with the dropped player are,
  as a multiset, exactly the pool, which has no repetition. So no id is on two teams or
  twice on one team, the dropped player is in the pool and on no team, and every id of
  the pool is the dropped player or on a team.
\<close>

theorem pickTeams_partition:
  assumes "pickTeams host choosePartner shuffled nextBotName rnd = Some (Inr (tms, dropped))"
    and "\<forall>e\<in>set shuffled. snd e \<noteq> Some (fst e)"
  shows "\<exists>pool.
     bot_fill host nextBotName (new_Set (map fst (new_Map shuffled))) = Some pool \<and>
     distinct pool \<and> fst ` set shuffled \<subseteq> set pool \<and>
     (host \<noteq> ''bots'' \<longrightarrow> set pool = fst ` set shuffled) \<and>
     mset (concat (map users tms)) + mset_dropped dropped = mset pool \<and>
     distinct (concat (map users tms)) \<and>
     (\<forall>u. dropped = Some u \<longrightarrow> u \<in> set pool \<and> u \<notin> set (concat (map users tms))) \<and>
     (\<forall>u\<in>set pool. dropped = Some u \<or> (\<exists>t\<in>set tms. u \<in> set (users t)))"
proof -
  from assms(1) obtain pool rejects2 teams1 rejects3 where
    b: "bot_fill host nextBotName (new_Set (map fst (new_Map shuffled))) = Some pool"
    and m: "matched choosePartner (new_Map shuffled) pool = (rejects2, teams1)"
    and dr: "drop_one rnd rejects2 = Inr (dropped, rejects3)"
    and ev: "even (length rejects3)"
    and pl: "pair_loop rejects3 teams1 = Inr tms" by (rule pickTeams_cases)
  have d0: "distinct (new_Set (map fst (new_Map shuffled)))" by simp
  have d1: "distinct pool" by (rule bot_fill_pool(1)[OF b d0])
  have s1: "fst ` set shuffled \<subseteq> set pool" using bot_fill_pool(2)[OF b d0] by simp
  have s2: "host \<noteq> ''bots'' \<longrightarrow> set pool = fst ` set shuffled"
    using bot_fill_pool(3)[OF b d0] by auto
  have ns: "\<forall>e\<in>set (new_Map shuffled). snd e \<noteq> Some (fst e)"
    using assms(2) new_Map_entries[of shuffled] by blast
  have e1: "mset pool = mset rejects2 + mset (concat (map users teams1))"
    by (rule matched_mset[OF m d1 ns])
  have d2: "distinct rejects2" by (rule matched_pile(2)[OF m d1])
  have e2: "mset rejects2 = mset rejects3 + mset_dropped dropped"
    by (rule drop_one_mset(2)[OF dr d2])
  from pl have t: "tms = teams1 @ pairs_of (rev rejects3)"
    unfolding pair_loop_closed by (simp split: if_splits)
  have e3: "mset (concat (map users (pairs_of (rev rejects3)))) = mset rejects3"
    using pairs_of_mset[of "rev rejects3"] ev by simp
  have eq: "mset (concat (map users tms)) + mset_dropped dropped = mset pool"
    unfolding t e1 e2 by (simp add: e3)
  define L where "L = concat (map users tms) @ (case dropped of None \<Rightarrow> [] | Some u \<Rightarrow> [u])"
  have "mset L = mset pool" unfolding L_def eq[symmetric]
    by (simp add: mset_dropped_def split: option.splits)
  then have dl: "distinct L" and sl: "set L = set pool"
    using d1 mset_eq_imp_distinct_iff mset_eq_setD by blast+
  have c6: "distinct (concat (map users tms))" using dl unfolding L_def by simp
  have c7: "\<forall>u. dropped = Some u \<longrightarrow> u \<in> set pool \<and> u \<notin> set (concat (map users tms))"
  proof (intro allI impI)
    fix u assume u: "dropped = Some u"
    then have "L = concat (map users tms) @ [u]" unfolding L_def by simp
    with dl sl show "u \<in> set pool \<and> u \<notin> set (concat (map users tms))" by auto
  qed
  have c8: "\<forall>u\<in>set pool. dropped = Some u \<or> (\<exists>t\<in>set tms. u \<in> set (users t))"
  proof
    fix u assume "u \<in> set pool"
    then have "u \<in> set L" using sl by simp
    then show "dropped = Some u \<or> (\<exists>t\<in>set tms. u \<in> set (users t))"
      unfolding L_def by (auto split: option.splits)
  qed
  from b d1 s1 s2 eq c6 c7 c8 show ?thesis by blast
qed

text \<open>C10 on seven signups and host \<open>bots\<close>: one bot fills the pool to eight, and the four
  teams hold each of the eight ids once.\<close>

theorem pickTeams_partition_witness:
  "\<exists>tms.
     pickTeams ''bots'' True
       [(''a'', Some ''b''), (''b'', Some ''a''), (''c'', None), (''d'', None), (''e'', None),
        (''f'', None), (''g'', None)] (\<lambda>i. ''x'') 0 = Some (Inr (tms, None)) \<and>
     tms = [Team ''a'' ''b'', Team '':bot:x'' ''g'', Team ''f'' ''e'', Team ''d'' ''c''] \<and>
     distinct (concat (map users tms)) \<and>
     mset (concat (map users tms)) =
       mset [''a'', ''b'', ''c'', ''d'', ''e'', ''f'', ''g'', '':bot:x'']"
proof -
  let ?S = "[(''a'', Some ''b''), (''b'', Some ''a''), (''c'', None), (''d'', None), (''e'', None),
        (''f'', None), (''g'', None)]"
  let ?P = "[''a'', ''b'', ''c'', ''d'', ''e'', ''f'', ''g'', '':bot:x'']"
  let ?T = "[Team ''a'' ''b'', Team '':bot:x'' ''g'', Team ''f'' ''e'', Team ''d'' ''c'']"
  have h: "\<forall>e\<in>set ?S. snd e \<noteq> Some (fst e)" by simp
  have k: "distinct (map fst ?S)" by simp
  have nm: "new_Map ?S = ?S" by (rule new_Map_id[OF k])
  have ns: "new_Set (map fst ?S) = map fst ?S" by (rule new_Set_id[OF k])
  have ml: "max_loop (length (map fst ?S)) 8 = Some 8" by (rule max_loop_small) simp
  have bf: "bot_fill ''bots'' (\<lambda>i. ''x'') (map fst ?S) = Some ?P"
    unfolding bot_fill_def ml by (simp add: set_add_def)
  have ma: "matched True ?S ?P = ([''c'', ''d'', ''e'', ''f'', ''g'', '':bot:x''], [Team ''a'' ''b''])"
    by (simp add: matched_def set_delete_def)
  have dr: "drop_one 0 [''c'', ''d'', ''e'', ''f'', ''g'', '':bot:x'']
      = Inr (None, [''c'', ''d'', ''e'', ''f'', ''g'', '':bot:x''])"
    by (simp add: drop_one_def)
  have pt: "pickTeams ''bots'' True ?S (\<lambda>i. ''x'') 0 = Some (Inr (?T, None))"
    unfolding pickTeams_stages nm ns bf option.case ma prod.case dr sum.case
    by (simp add: pair_loop_closed)
  from pickTeams_partition[OF pt h] obtain pool where
    b: "bot_fill ''bots'' (\<lambda>i. ''x'') (new_Set (map fst (new_Map ?S))) = Some pool"
    and e: "mset (concat (map users ?T)) + mset_dropped None = mset pool"
    and d: "distinct (concat (map users ?T))" by blast
  from b have "pool = ?P" unfolding nm ns bf by simp
  with e have "mset (concat (map users ?T)) = mset ?P" by (simp add: mset_dropped_def)
  with pt d show ?thesis by blast
qed





lemma match_partners_walk:
  "match_partners signups es (rejects, tms) =
     (case spec_walk signups es rejects of (found, pool') \<Rightarrow> (pool', tms @ found))"
proof (induction es arbitrary: rejects tms)
  case Nil
  show ?case by simp
next
  case (Cons e es)
  obtain user partner where e: "e = (user, partner)" by (cases e)
  have m: "mutual signups rejects (user, partner) = spec_mutual signups rejects user partner"
    by (cases partner) (simp_all add: mutual_def spec_mutual_def)
  show ?case
  proof (cases "spec_mutual signups rejects user partner")
    case True
    obtain found pool' where
      w: "spec_walk signups es (removeAll (the partner) (removeAll user rejects)) = (found, pool')"
      by (cases "spec_walk signups es (removeAll (the partner) (removeAll user rejects))")
    show ?thesis
      unfolding e match_partners_Cons m using True
      by (simp add: Cons.IH set_delete_def w)
  next
    case False
    then show ?thesis unfolding e match_partners_Cons m by (simp add: Cons.IH)
  qed
qed

lemma spec_walk_found:
  assumes "spec_walk signups es pool = (found, pool')"
  shows "(\<forall>t\<in>set found. \<exists>u p. t = Team u p \<and> (u, Some p) \<in> set es \<and> p \<noteq> [] \<and>
             map_of signups p = Some (Some u) \<and> u \<in> set pool \<and> p \<in> set pool \<and>
             u \<notin> set pool' \<and> p \<notin> set pool') \<and>
         subseq (map (\<lambda>t. hd (users t)) found) (map fst es) \<and>
         set pool' \<subseteq> set pool"
  using assms
proof (induction es arbitrary: pool found)
  case Nil
  then show ?case by simp
next
  case (Cons e es)
  obtain user partner where e: "e = (user, partner)" by (cases e)
  show ?case
  proof (cases "spec_mutual signups pool user partner")
    case True
    then obtain p where p: "partner = Some p" "p \<noteq> []" "p \<in> set pool"
      "map_of signups p = Some (Some user)" and u: "user \<in> set pool"
      unfolding spec_mutual_def by (auto split: option.splits)
    obtain f' where w: "spec_walk signups es (removeAll p (removeAll user pool)) = (f', pool')"
      and f: "found = Team user p # f'"
      using Cons.prems True unfolding e p(1) by (auto split: prod.splits)
    from Cons.IH[OF w] have ih:
      "\<forall>t\<in>set f'. \<exists>u p'. t = Team u p' \<and> (u, Some p') \<in> set es \<and> p' \<noteq> [] \<and>
             map_of signups p' = Some (Some u) \<and> u \<in> set (removeAll p (removeAll user pool)) \<and>
             p' \<in> set (removeAll p (removeAll user pool)) \<and> u \<notin> set pool' \<and> p' \<notin> set pool'"
      "subseq (map (\<lambda>t. hd (users t)) f') (map fst es)"
      "set pool' \<subseteq> set (removeAll p (removeAll user pool))" by simp_all
    have a: "\<forall>t\<in>set found. \<exists>u p. t = Team u p \<and> (u, Some p) \<in> set (e # es) \<and> p \<noteq> [] \<and>
             map_of signups p = Some (Some u) \<and> u \<in> set pool \<and> p \<in> set pool \<and>
             u \<notin> set pool' \<and> p \<notin> set pool'"
    proof
      fix t assume "t \<in> set found"
      then consider "t = Team user p" | "t \<in> set f'" unfolding f by auto
      then show "\<exists>u p. t = Team u p \<and> (u, Some p) \<in> set (e # es) \<and> p \<noteq> [] \<and>
             map_of signups p = Some (Some u) \<and> u \<in> set pool \<and> p \<in> set pool \<and>
             u \<notin> set pool' \<and> p \<notin> set pool'"
      proof cases
        case 1
        have "user \<notin> set pool'" "p \<notin> set pool'" using ih(3) by auto
        with 1 p u show ?thesis unfolding e by auto
      next
        case 2
        with ih(1) obtain u' p' where "t = Team u' p'" "(u', Some p') \<in> set es" "p' \<noteq> []"
          "map_of signups p' = Some (Some u')" "u' \<in> set (removeAll p (removeAll user pool))"
          "p' \<in> set (removeAll p (removeAll user pool))" "u' \<notin> set pool'" "p' \<notin> set pool'"
          by blast
        then show ?thesis by auto
      qed
    qed
    have b: "subseq (map (\<lambda>t. hd (users t)) found) (map fst (e # es))"
      unfolding f e using ih(2) by simp
    have c: "set pool' \<subseteq> set pool" using ih(3) by auto
    from a b c show ?thesis by simp
  next
    case False
    with Cons.prems have w: "spec_walk signups es pool = (found, pool')" unfolding e by simp
    from Cons.IH[OF w] show ?thesis unfolding e by auto
  qed
qed

text \<open>
  Claim C6. When \<open>pickTeams\<close> returns and partner choices are honoured, the loop of the
  code over the entries finds exactly the teams of the walk that the specification
  describes (\<open>spec_walk\<close>, on the entries in their permuted order and the pool after
  the bot fill), and leaves the same pool. The teams returned are these mutual teams,
  in the order they were found, followed by the pairs formed from what remains of the
  pool once a player was dropped from an odd pool. Every mutual team \<open>Team u p\<close> comes
  from an entry of \<open>u\<close> that names \<open>p\<close>, the entry of \<open>p\<close> names \<open>u\<close>, both were in the
  pool and are no more in what remains; the first users of the mutual teams follow the
  order of the entries. When partner choices are not honoured there is no mutual team.
\<close>

theorem mutual_teams_first:
  assumes "pickTeams host choosePartner shuffled nextBotName rnd = Some (Inr (tms, dropped))"
  shows "\<exists>pool found rest left.
     bot_fill host nextBotName (new_Set (map fst (new_Map shuffled))) = Some pool \<and>
     (choosePartner \<longrightarrow> spec_walk (new_Map shuffled) (new_Map shuffled) pool = (found, rest)) \<and>
     (\<not> choosePartner \<longrightarrow> found = [] \<and> rest = pool) \<and>
     drop_one rnd rest = Inr (dropped, left) \<and>
     tms = found @ pairs_of (rev left) \<and>
     (\<forall>t\<in>set found. \<exists>u p. t = Team u p \<and> (u, Some p) \<in> set (new_Map shuffled) \<and> p \<noteq> [] \<and>
         map_of (new_Map shuffled) p = Some (Some u) \<and> u \<in> set pool \<and> p \<in> set pool \<and>
         u \<notin> set rest \<and> p \<notin> set rest) \<and>
     subseq (map (\<lambda>t. hd (users t)) found) (map fst (new_Map shuffled)) \<and>
     set rest \<subseteq> set pool \<and>
     mset (concat (map users (pairs_of (rev left)))) + mset_dropped dropped = mset rest \<and>
     (distinct (map fst shuffled) \<longrightarrow> new_Map shuffled = shuffled)"
proof -
  let ?S = "new_Map shuffled"
  from assms obtain pool rest found left where
    b: "bot_fill host nextBotName (new_Set (map fst ?S)) = Some pool"
    and m: "matched choosePartner ?S pool = (rest, found)"
    and dr: "drop_one rnd rest = Inr (dropped, left)"
    and ev: "even (length left)"
    and pl: "pair_loop left found = Inr tms" by (rule pickTeams_cases)
  have d1: "distinct pool" by (rule bot_fill_pool(1)[OF b]) simp
  have d2: "distinct rest" by (rule matched_pile(2)[OF m d1])
  from pl have t: "tms = found @ pairs_of (rev left)"
    unfolding pair_loop_closed by (simp split: if_splits)
  have ms: "mset (concat (map users (pairs_of (rev left)))) + mset_dropped dropped = mset rest"
    using pairs_of_mset[of "rev left"] ev drop_one_mset(2)[OF dr d2] by simp
  have w: "choosePartner \<longrightarrow> spec_walk ?S ?S pool = (found, rest)"
  proof
    assume choosePartner
    with m have "match_partners ?S ?S (pool, []) = (rest, found)" by (simp add: matched_def)
    then show "spec_walk ?S ?S pool = (found, rest)"
      unfolding match_partners_walk by (simp split: prod.splits)
  qed
  have nw: "\<not> choosePartner \<longrightarrow> found = [] \<and> rest = pool"
    using m by (auto simp: matched_def)
  have props: "(\<forall>t\<in>set found. \<exists>u p. t = Team u p \<and> (u, Some p) \<in> set ?S \<and> p \<noteq> [] \<and>
         map_of ?S p = Some (Some u) \<and> u \<in> set pool \<and> p \<in> set pool \<and>
         u \<notin> set rest \<and> p \<notin> set rest) \<and>
     subseq (map (\<lambda>t. hd (users t)) found) (map fst ?S) \<and> set rest \<subseteq> set pool"
  proof (cases choosePartner)
    case True
    with w have "spec_walk ?S ?S pool = (found, rest)" by simp
    then show ?thesis by (rule spec_walk_found)
  next
    case False
    with nw show ?thesis by simp
  qed
  have id: "distinct (map fst shuffled) \<longrightarrow> new_Map shuffled = shuffled"
    using new_Map_id by blast
  from b w nw dr t props ms id show ?thesis by blast
qed

text \<open>C6 on six signups: \<open>c\<close> and \<open>d\<close> name each other and so do \<open>a\<close> and \<open>b\<close>; \<open>f\<close> names
  \<open>a\<close>, who is taken. The two mutual teams come first, in the order of the entries of
  \<open>c\<close> and \<open>a\<close>, then the pair of the two that remain.\<close>

theorem mutual_teams_first_witness:
  "\<exists>found rest.
     pickTeams ''ann'' True
       [(''c'', Some ''d''), (''a'', Some ''b''), (''e'', None), (''b'', Some ''a''),
        (''d'', Some ''c''), (''f'', Some ''a'')] (\<lambda>i. []) 0 =
       Some (Inr ([Team ''c'' ''d'', Team ''a'' ''b'', Team ''f'' ''e''], None)) \<and>
     spec_walk
       [(''c'', Some ''d''), (''a'', Some ''b''), (''e'', None), (''b'', Some ''a''),
        (''d'', Some ''c''), (''f'', Some ''a'')]
       [(''c'', Some ''d''), (''a'', Some ''b''), (''e'', None), (''b'', Some ''a''),
        (''d'', Some ''c''), (''f'', Some ''a'')]
       [''c'', ''a'', ''e'', ''b'', ''d'', ''f''] = (found, rest) \<and>
     found = [Team ''c'' ''d'', Team ''a'' ''b''] \<and> rest = [''e'', ''f''] \<and>
     [Team ''c'' ''d'', Team ''a'' ''b'', Team ''f'' ''e''] = found @ pairs_of (rev rest)"
proof -
  let ?S = "[(''c'', Some ''d''), (''a'', Some ''b''), (''e'', None), (''b'', Some ''a''),
        (''d'', Some ''c''), (''f'', Some ''a'')]"
  let ?P = "[''c'', ''a'', ''e'', ''b'', ''d'', ''f'']"
  let ?T = "[Team ''c'' ''d'', Team ''a'' ''b'', Team ''f'' ''e'']"
  have k: "distinct (map fst ?S)" by simp
  have nm: "new_Map ?S = ?S" by (rule new_Map_id[OF k])
  have ns: "new_Set (map fst ?S) = map fst ?S" by (rule new_Set_id[OF k])
  have bf: "bot_fill ''ann'' (\<lambda>i. []) (map fst ?S) = Some ?P" by (simp add: bot_fill_def)
  have sw: "spec_walk ?S ?S ?P = ([Team ''c'' ''d'', Team ''a'' ''b''], [''e'', ''f''])"
    by (simp add: spec_mutual_def)
  have ma: "matched True ?S ?P = ([''e'', ''f''], [Team ''c'' ''d'', Team ''a'' ''b''])"
    unfolding matched_def match_partners_walk sw by simp
  have dr: "drop_one 0 [''e'', ''f''] = Inr (None, [''e'', ''f''])" by (simp add: drop_one_def)
  have pt: "pickTeams ''ann'' True ?S (\<lambda>i. []) 0 = Some (Inr (?T, None))"
    unfolding pickTeams_stages nm ns bf option.case ma prod.case dr sum.case
    by (simp add: pair_loop_closed)
  from mutual_teams_first[OF pt] obtain pool found rest left where
    b: "bot_fill ''ann'' (\<lambda>i. []) (new_Set (map fst (new_Map ?S))) = Some pool"
    and w: "True \<longrightarrow> spec_walk (new_Map ?S) (new_Map ?S) pool = (found, rest)"
    and d: "drop_one 0 rest = Inr (None, left)"
    and t: "?T = found @ pairs_of (rev left)" by blast
  from b have p: "pool = ?P" unfolding nm ns bf by simp
  from w have w': "spec_walk ?S ?S ?P = (found, rest)" unfolding nm p by simp
  then have fr: "found = [Team ''c'' ''d'', Team ''a'' ''b'']" "rest = [''e'', ''f'']"
    unfolding sw by simp_all
  from d have "left = rest" unfolding fr dr by simp
  with t have "?T = found @ pairs_of (rev rest)" by simp
  with pt w' fr show ?thesis by blast
qed

end
